theory Spec2Isabelle
  imports Main "HOL-Library.AList"
begin

section \<open>The spreadsheet engine: data model\<close>

text \<open>
  The development embeds \<^verbatim>\<open>sheet.cpp\<close>, \<^verbatim>\<open>cell.cpp\<close> and \<^verbatim>\<open>formula.cpp\<close>.
  \<^verbatim>\<open>Position\<close>, the two sign constants and \<^verbatim>\<open>FormulaAST\<close> are declared in
  headers and files that are not among the sources; they are modelled from the
  specification or taken as parameters, and each such place says so.
\<close>

datatype Position = Position (row: int) (col: int)

text \<open>
  Modelled from the spec: \<^verbatim>\<open>Position::IsValid\<close> (the header \<^verbatim>\<open>common.h\<close> is not
  among the sources). Valid range \<open>0 \<le> row < MAX_ROWS\<close>, \<open>0 \<le> col < MAX_COLS\<close>, with the
  bounds 16384 by 16384 the specification names.
\<close>

definition MAX_ROWS :: int where
  "MAX_ROWS = 16384"

definition MAX_COLS :: int where
  "MAX_COLS = 16384"

definition IsValid :: "Position \<Rightarrow> bool" where
  "IsValid pos = (0 \<le> row pos \<and> row pos < MAX_ROWS \<and> 0 \<le> col pos \<and> col pos < MAX_COLS)"

text \<open>
  Modelled from the spec: the formula marker \<^verbatim>\<open>'='\<close> and the escape character
  (the apostrophe), constants of \<^verbatim>\<open>common.h\<close>.
\<close>

definition FORMULA_SIGN :: char where
  "FORMULA_SIGN = CHR ''=''"

definition ESCAPE_SIGN :: char where
  "ESCAPE_SIGN = CHR 0x27"

datatype FormulaError = Ref | Value | Arithmetic

text \<open>
  \<^verbatim>\<open>FormulaInterface::Value\<close> is \<^verbatim>\<open>variant<double, FormulaError>\<close> and
  \<^verbatim>\<open>CellInterface::Value\<close> is \<^verbatim>\<open>variant<string, double, FormulaError>\<close>. The type
  of doubles is a parameter \<open>'d\<close> of the model; only its zero is used.
\<close>

datatype 'd FormulaValue = FDouble 'd | FError FormulaError

datatype 'd CellValue = VString string | VDouble 'd | VError FormulaError

text \<open>
  Modelled from the spec: \<^verbatim>\<open>FormulaAST\<close> (its source is not among the sources). A
  parsed tree is known through its three operations. \<^verbatim>\<open>GetCells\<close> lists the positions
  of the tree (they may be invalid and may repeat), \<^verbatim>\<open>PrintFormula\<close> is the canonical
  text, and \<^verbatim>\<open>Execute(lookup)\<close> evaluates the tree: it ends with a double, fails with a
  \<^verbatim>\<open>FormulaError\<close>, or calls \<^verbatim>\<open>lookup\<close> at a position and goes on with the double
  that comes back. An error thrown by \<^verbatim>\<open>lookup\<close> aborts the evaluation.
\<close>

datatype 'd Execution =
    Yield 'd
  | Fail FormulaError
  | Lookup Position "'d \<Rightarrow> 'd Execution"

record 'd FormulaAST =
  GetCells :: "Position list"
  PrintFormula :: string
  Execute :: "'d Execution"

text \<open>
  The three bodies of \<^verbatim>\<open>Cell::Impl\<close>. A formula body holds the parsed formula and the
  \<^verbatim>\<open>mutable std::optional<Value> cache_\<close>.
\<close>

datatype 'd Impl =
    EmptyImpl
  | TextImpl string
  | FormulaImpl "'d FormulaAST" "'d FormulaValue option"

text \<open>
  A \<^verbatim>\<open>Cell*\<close> is modelled by the key of the map entry that owns the cell: every cell
  is created by \<^verbatim>\<open>cells_.emplace(pos, make_unique<Cell>)\<close> and never moves, so its
  address and its key determine each other. \<open>l_nodes\<close> (the member \<^verbatim>\<open>l_nodes_\<close>) are
  the incoming edges, the cells that read this one; \<open>r_nodes\<close> (\<^verbatim>\<open>r_nodes_\<close>) are the
  outgoing ones; \<open>impl\<close> is \<^verbatim>\<open>impl_\<close>. The two members are sets of cell pointers
  (the code inserts, erases, clears, tests for emptiness and iterates); they are
  kept as lists without repetition, and the loops over them run in the order of the
  list.
\<close>

record 'd Cell =
  impl :: "'d Impl"
  l_nodes :: "Position list"
  r_nodes :: "Position list"

text \<open>
  \<^verbatim>\<open>Sheet::cells_\<close> maps a position to a \<^verbatim>\<open>unique_ptr<Cell>\<close>; an entry holding
  \<open>None\<close> is an entry whose pointer was reset to \<^verbatim>\<open>nullptr\<close>. The map is kept as an
  association list: \<^verbatim>\<open>find\<close> is \<open>map_of\<close>, \<^verbatim>\<open>emplace\<close> of a new key appends an entry, and
  a write through the pointer of an entry replaces its value in place.
\<close>

type_synonym 'd Sheet = "(Position \<times> 'd Cell option) list"

datatype exn =
    InvalidPositionException
  | FormulaException
  | CircularDependencyException
  | logic_error
  | invalid_argument
  | bad_variant_access
  | Thrown FormulaError

text \<open>
  A call returns, throws, or runs into undefined behaviour (a null or dangling
  pointer is dereferenced). A computation takes the state and gives the outcome and
  the state it leaves; \<open>None\<close> is a computation that does not return (the recursion
  bound \<open>fuel\<close> is used up).
\<close>

datatype 'a outcome = Returns 'a | Throws exn | Undefined

type_synonym ('a, 's) comp = "'s \<Rightarrow> ('a outcome \<times> 's) option"

definition return :: "'a \<Rightarrow> ('a, 's) comp" where
  "return a = (\<lambda>s. Some (Returns a, s))"

definition throw :: "exn \<Rightarrow> ('a, 's) comp" where
  "throw e = (\<lambda>s. Some (Throws e, s))"

definition undefined_behaviour :: "('a, 's) comp" where
  "undefined_behaviour = (\<lambda>s. Some (Undefined, s))"

definition lift :: "'a outcome \<Rightarrow> ('a, 's) comp" where
  "lift r = (\<lambda>s. Some (r, s))"

definition bind :: "('a, 's) comp \<Rightarrow> ('a \<Rightarrow> ('b, 's) comp) \<Rightarrow> ('b, 's) comp" where
  "bind m f = (\<lambda>s. case m s of
      None \<Rightarrow> None
    | Some (Returns a, s') \<Rightarrow> f a s'
    | Some (Throws e, s') \<Rightarrow> Some (Throws e, s')
    | Some (Undefined, s') \<Rightarrow> Some (Undefined, s'))"

section \<open>formula.cpp\<close>

text \<open>
  \<^verbatim>\<open>Formula::GetReferencedCells\<close>: the valid positions of \<^verbatim>\<open>ast_.GetCells()\<close>, then
  \<^verbatim>\<open>std::unique\<close>, which removes an element equal to the one just before it.
\<close>

definition Formula_GetReferencedCells :: "'d FormulaAST \<Rightarrow> Position list" where
  "Formula_GetReferencedCells ast = remdups_adj (filter IsValid (GetCells ast))"

text \<open>
  \<^verbatim>\<open>Formula::GetExpression\<close>.
\<close>

definition Formula_GetExpression :: "'d FormulaAST \<Rightarrow> string" where
  "Formula_GetExpression ast = PrintFormula ast"

text \<open>
  \<^verbatim>\<open>Formula::ConvertStringToDouble\<close>. The stream extraction \<^verbatim>\<open>in >> result\<close> is the
  parameter \<open>extract\<close>: \<open>None\<close> when the extraction fails, otherwise the double read
  and whether the stream is at its end.
\<close>

definition ConvertStringToDouble ::
  "(string \<Rightarrow> ('d::zero \<times> bool) option) \<Rightarrow> string \<Rightarrow> 'd outcome" where
  "ConvertStringToDouble extract v =
     (if v \<noteq> [] then
        (case extract v of
           None \<Rightarrow> Throws (Thrown Value)
         | Some (result, eof) \<Rightarrow> if \<not> eof then Throws (Thrown Value) else Returns result)
      else Returns 0)"


section \<open>sheet.cpp: lookup\<close>

text \<open>
  Dereferencing a cell pointer: \<open>None\<close> when no live cell stands at the key (the entry
  is missing or was reset), where the C++ dereference is undefined.
\<close>

definition deref :: "'d Sheet \<Rightarrow> Position \<Rightarrow> 'd Cell option" where
  "deref s p = (case map_of s p of Some (Some c) \<Rightarrow> Some c | _ \<Rightarrow> None)"

text \<open>
  \<^verbatim>\<open>Sheet::GetCellPtr\<close>, which \<^verbatim>\<open>Sheet::GetCell\<close> returns unchanged:
  \<^verbatim>\<open>ValidatePosition\<close>, then \<^verbatim>\<open>nullptr\<close> when \<^verbatim>\<open>find\<close> fails and the entry's pointer
  otherwise (itself \<^verbatim>\<open>nullptr\<close> after a reset).
\<close>

definition GetCellPtr :: "'d Sheet \<Rightarrow> Position \<Rightarrow> Position option outcome" where
  "GetCellPtr s pos =
     (if \<not> IsValid pos then Throws InvalidPositionException
      else (case map_of s pos of
              None \<Rightarrow> Returns None
            | Some None \<Rightarrow> Returns None
            | Some (Some c) \<Rightarrow> Returns (Some pos)))"

definition GetCell :: "'d Sheet \<Rightarrow> Position \<Rightarrow> Position option outcome" where
  "GetCell s pos = GetCellPtr s pos"

section \<open>Evaluation\<close>

text \<open>
  The evaluation functions run on the sheet paired with a counter of the calls of
  \<^verbatim>\<open>Formula::Evaluate\<close> made so far. The counter is instrumentation: no function reads
  it.
\<close>

type_synonym 'd EvalState = "'d Sheet \<times> nat"

text \<open>
  \<^verbatim>\<open>ast_.Execute(args)\<close>: the tree's evaluation with \<^verbatim>\<open>args\<close> as its lookup.
\<close>

primrec FormulaAST_Execute ::
  "'d Execution \<Rightarrow> (Position \<Rightarrow> ('d, 's) comp) \<Rightarrow> ('d, 's) comp" where
  "FormulaAST_Execute (Yield d) args = return d"
| "FormulaAST_Execute (Fail e) args = throw (Thrown e)"
| "FormulaAST_Execute (Lookup p k) args = bind (args p) (\<lambda>d. FormulaAST_Execute (k d) args)"

text \<open>
  The handler of \<^verbatim>\<open>Formula::Evaluate\<close>: \<^verbatim>\<open>catch (FormulaError& e) { return e; }\<close>.
\<close>

fun catch_FormulaError :: "'d outcome \<Rightarrow> 'd FormulaValue outcome" where
  "catch_FormulaError (Returns d) = Returns (FDouble d)"
| "catch_FormulaError (Throws (Thrown e)) = Returns (FError e)"
| "catch_FormulaError (Throws x) = Throws x"
| "catch_FormulaError Undefined = Undefined"

definition Formula_Evaluate ::
  "(Position \<Rightarrow> ('d, 'd EvalState) comp) \<Rightarrow> 'd FormulaAST \<Rightarrow> ('d FormulaValue, 'd EvalState) comp" where
  "Formula_Evaluate args ast =
     (\<lambda>(s, calls). case FormulaAST_Execute (Execute ast) args (s, Suc calls) of
        None \<Rightarrow> None
      | Some (r, st) \<Rightarrow> Some (catch_FormulaError r, st))"

fun get_double :: "'d CellValue \<Rightarrow> 'd outcome" where
  "get_double (VDouble d) = Returns d"
| "get_double v = Throws bad_variant_access"

fun get_string :: "'d CellValue \<Rightarrow> string outcome" where
  "get_string (VString str) = Returns str"
| "get_string v = Throws bad_variant_access"

fun get_FormulaError :: "'d CellValue \<Rightarrow> FormulaError outcome" where
  "get_FormulaError (VError e) = Returns e"
| "get_FormulaError v = Throws bad_variant_access"

fun holds_double :: "'d CellValue \<Rightarrow> bool" where
  "holds_double (VDouble d) = True"
| "holds_double v = False"

fun holds_string :: "'d CellValue \<Rightarrow> bool" where
  "holds_string (VString str) = True"
| "holds_string v = False"

text \<open>
  \<^verbatim>\<open>Formula::EvaluateCell\<close>. \<open>getValue cell\<close> is the call \<^verbatim>\<open>cell->GetValue()\<close>; the
  source makes it once for each test and once more for each \<^verbatim>\<open>std::get\<close>.
\<close>

definition EvaluateCell ::
  "(Position \<Rightarrow> ('d CellValue, 'd EvalState) comp) \<Rightarrow> (string \<Rightarrow> ('d::zero \<times> bool) option) \<Rightarrow>
   Position \<Rightarrow> ('d, 'd EvalState) comp" where
  "EvaluateCell getValue extract p =
     (\<lambda>st.
        if \<not> IsValid p then Some (Throws (Thrown Ref), st)
        else (case GetCell (fst st) p of
                Throws e \<Rightarrow> Some (Throws e, st)
              | Undefined \<Rightarrow> Some (Undefined, st)
              | Returns None \<Rightarrow> Some (Returns 0, st)
              | Returns (Some cell) \<Rightarrow>
                  bind (getValue cell) (\<lambda>v1.
                    if holds_double v1 then
                      bind (getValue cell) (\<lambda>v2. lift (get_double v2))
                    else
                      bind (getValue cell) (\<lambda>v2.
                        if holds_string v2 then
                          bind (getValue cell) (\<lambda>v3.
                            (case get_string v3 of
                               Returns str \<Rightarrow> lift (ConvertStringToDouble extract str)
                             | Throws e \<Rightarrow> throw e
                             | Undefined \<Rightarrow> undefined_behaviour))
                        else
                          bind (getValue cell) (\<lambda>v3.
                            (case get_FormulaError v3 of
                               Returns e \<Rightarrow> throw (Thrown e)
                             | Throws e \<Rightarrow> throw e
                             | Undefined \<Rightarrow> undefined_behaviour)))) st))"

text \<open>
  The assignment \<^verbatim>\<open>cache_ = ...\<close> inside \<^verbatim>\<open>FormulaImpl::GetValue\<close> of the cell at \<open>p\<close>.
\<close>

definition set_cache :: "Position \<Rightarrow> 'd FormulaValue \<Rightarrow> (unit, 'd EvalState) comp" where
  "set_cache p v =
     (\<lambda>(s, calls).
        Some (Returns (),
          (case deref s p of
             None \<Rightarrow> s
           | Some c \<Rightarrow>
               (case impl c of
                  FormulaImpl ast cache \<Rightarrow>
                    AList.update p (Some (c\<lparr>impl := FormulaImpl ast (Some v)\<rparr>)) s
                | _ \<Rightarrow> s)),
          calls))"

text \<open>
  \<^verbatim>\<open>FormulaImpl::GetValue\<close>: the cache is filled when it is empty, and then the formula
  is evaluated and that value returned.
\<close>

definition FormulaImpl_GetValue ::
  "(Position \<Rightarrow> ('d, 'd EvalState) comp) \<Rightarrow> Position \<Rightarrow> 'd FormulaAST \<Rightarrow> 'd FormulaValue option \<Rightarrow>
   ('d CellValue, 'd EvalState) comp" where
  "FormulaImpl_GetValue args p ast cache =
     bind (if cache = None then bind (Formula_Evaluate args ast) (set_cache p) else return ())
       (\<lambda>_. bind (Formula_Evaluate args ast)
          (\<lambda>v. return (case v of FDouble d \<Rightarrow> VDouble d | FError e \<Rightarrow> VError e)))"

text \<open>
  \<^verbatim>\<open>EmptyImpl::GetValue\<close>, \<^verbatim>\<open>TextImpl::GetValue\<close> and \<^verbatim>\<open>FormulaImpl::GetValue\<close>, by the
  body of the cell. \<^verbatim>\<open>text_[0]\<close> of an empty string is the null character, which is not
  the escape sign.
\<close>

definition Impl_GetValue ::
  "(Position \<Rightarrow> ('d, 'd EvalState) comp) \<Rightarrow> Position \<Rightarrow> 'd Impl \<Rightarrow> ('d CellValue, 'd EvalState) comp" where
  "Impl_GetValue args p body =
     (case body of
        EmptyImpl \<Rightarrow> return (VString [])
      | TextImpl t \<Rightarrow>
          return (VString (case t of [] \<Rightarrow> t | c # rest \<Rightarrow> if c = ESCAPE_SIGN then rest else t))
      | FormulaImpl ast cache \<Rightarrow> FormulaImpl_GetValue args p ast cache)"

text \<open>
  \<^verbatim>\<open>Cell::GetValue\<close> on the cell a pointer names. A formula's lookup calls
  \<^verbatim>\<open>GetValue\<close> on the cells it reads; \<open>fuel\<close> bounds the depth of these calls.
\<close>

primrec Cell_GetValue ::
  "(string \<Rightarrow> ('d::zero \<times> bool) option) \<Rightarrow> nat \<Rightarrow> Position \<Rightarrow> ('d CellValue, 'd EvalState) comp" where
  "Cell_GetValue extract 0 = (\<lambda>p st. None)"
| "Cell_GetValue extract (Suc fuel) =
     (\<lambda>p st. case deref (fst st) p of
        None \<Rightarrow> Some (Undefined, st)
      | Some c \<Rightarrow> Impl_GetValue (EvaluateCell (Cell_GetValue extract fuel) extract) p (impl c) st)"


section \<open>cell.cpp\<close>

definition Impl_GetText :: "'d Impl \<Rightarrow> string" where
  "Impl_GetText body =
     (case body of
        EmptyImpl \<Rightarrow> []
      | TextImpl t \<Rightarrow> t
      | FormulaImpl ast cache \<Rightarrow> FORMULA_SIGN # Formula_GetExpression ast)"

definition Impl_GetReferencedCells :: "'d Impl \<Rightarrow> Position list" where
  "Impl_GetReferencedCells body =
     (case body of FormulaImpl ast cache \<Rightarrow> Formula_GetReferencedCells ast | _ \<Rightarrow> [])"

definition Impl_IsCacheValid :: "'d Impl \<Rightarrow> bool" where
  "Impl_IsCacheValid body = (case body of FormulaImpl ast cache \<Rightarrow> cache \<noteq> None | _ \<Rightarrow> True)"

definition Impl_InvalidateCache :: "'d Impl \<Rightarrow> 'd Impl" where
  "Impl_InvalidateCache body =
     (case body of FormulaImpl ast cache \<Rightarrow> FormulaImpl ast None | _ \<Rightarrow> body)"

text \<open>
  \<^verbatim>\<open>ParseFormula\<close>: every exception of the construction becomes a
  \<^verbatim>\<open>FormulaException\<close>. The parser \<^verbatim>\<open>ParseFormulaAST\<close> is the parameter \<open>parse\<close>,
  \<open>None\<close> where it throws.
\<close>

definition ParseFormula :: "(string \<Rightarrow> 'd FormulaAST option) \<Rightarrow> string \<Rightarrow> 'd FormulaAST outcome" where
  "ParseFormula parse expression =
     (case parse expression of None \<Rightarrow> Throws FormulaException | Some ast \<Rightarrow> Returns ast)"

text \<open>
  The constructors of \<^verbatim>\<open>TextImpl\<close> and \<^verbatim>\<open>FormulaImpl\<close>, with their checks.
\<close>

definition new_TextImpl :: "string \<Rightarrow> 'd Impl outcome" where
  "new_TextImpl t = (if t = [] then Throws logic_error else Returns (TextImpl t))"

definition new_FormulaImpl :: "(string \<Rightarrow> 'd FormulaAST option) \<Rightarrow> string \<Rightarrow> 'd Impl outcome" where
  "new_FormulaImpl parse expression =
     (if expression = [] then Throws invalid_argument
      else if hd expression \<noteq> FORMULA_SIGN then Throws invalid_argument
      else (case ParseFormula parse (tl expression) of
              Returns ast \<Rightarrow> Returns (FormulaImpl ast None)
            | Throws e \<Rightarrow> Throws e
            | Undefined \<Rightarrow> Undefined))"

definition CreateImpl :: "(string \<Rightarrow> 'd FormulaAST option) \<Rightarrow> string \<Rightarrow> 'd Impl outcome" where
  "CreateImpl parse t =
     (if t = [] then Returns EmptyImpl
      else if length t > 1 \<and> hd t = FORMULA_SIGN then new_FormulaImpl parse t
      else new_TextImpl t)"

text \<open>
  The constructor \<^verbatim>\<open>Cell::Cell\<close>, and \<^verbatim>\<open>Cell::IsReferenced\<close>.
\<close>

definition new_Cell :: "'d Cell" where
  "new_Cell = \<lparr>impl = EmptyImpl, l_nodes = [], r_nodes = []\<rparr>"

definition IsReferenced :: "'d Cell \<Rightarrow> bool" where
  "IsReferenced c = (l_nodes c \<noteq> [])"

text \<open>
  A write to a member of the cell a pointer names.
\<close>

definition modify_cell :: "Position \<Rightarrow> ('d Cell \<Rightarrow> 'd Cell) \<Rightarrow> (unit, 'd Sheet) comp" where
  "modify_cell p f =
     (\<lambda>s. case deref s p of
        None \<Rightarrow> Some (Undefined, s)
      | Some c \<Rightarrow> Some (Returns (), AList.update p (Some (f c)) s))"

primrec for_each :: "'a list \<Rightarrow> ('a \<Rightarrow> (unit, 's) comp) \<Rightarrow> (unit, 's) comp" where
  "for_each [] f = return ()"
| "for_each (x # xs) f = bind (f x) (\<lambda>_. for_each xs f)"

text \<open>
  The loop of \<^verbatim>\<open>Cell::WouldIntroduceCircularDependency\<close>. The head of \<open>to_visit\<close> is
  the top of the stack.
\<close>

definition incoming_of :: "'d Sheet \<Rightarrow> Position set" where
  "incoming_of s = (\<Union>e \<in> set s. case snd e of None \<Rightarrow> {} | Some c \<Rightarrow> set (l_nodes c))"

function visit_loop ::
  "'d Sheet \<Rightarrow> Position option list \<Rightarrow> Position list \<Rightarrow> Position list \<Rightarrow> bool outcome" where
  "visit_loop s referenced visited [] = Returns False"
| "visit_loop s referenced visited (current # to_visit) =
     (if Some current \<in> set referenced then Returns True
      else (case deref s current of
              None \<Rightarrow> Undefined
            | Some c \<Rightarrow>
                visit_loop s referenced (List.insert current visited)
                  (rev (filter (\<lambda>incoming. incoming \<notin> set (List.insert current visited)) (l_nodes c))
                   @ to_visit)))"
  by pat_completeness auto

termination visit_loop
proof (relation "inv_image (less_than <*lex*> less_than)
    (\<lambda>(s, referenced, visited, to_visit).
       (card ((set to_visit \<union> incoming_of s) - set visited),
        length (filter (\<lambda>x. x \<in> set visited) to_visit)))", goal_cases)
  case 1
  show ?case by (simp add: wf_lex_prod)
next
  case (2 s referenced visited current to_visit c)
  let ?U = "(set (current # to_visit) \<union> incoming_of s) - set visited"
  let ?V' = "List.insert current visited"
  let ?T' = "rev (filter (\<lambda>incoming. incoming \<notin> set ?V') (l_nodes c)) @ to_visit"
  let ?U' = "(set ?T' \<union> incoming_of s) - set ?V'"
  have "finite (incoming_of s)"
    unfolding incoming_of_def by (auto split: option.splits)
  then have fin: "finite ?U" by simp
  have "set (l_nodes c) \<subseteq> incoming_of s"
    using 2(2) unfolding deref_def incoming_of_def
    by (auto split: option.splits dest!: map_of_SomeD)
  then have sub: "?U' \<subseteq> ?U" by auto
  show ?case
  proof (cases "current \<in> set visited")
    case True
    have "card ?U' \<le> card ?U" using fin sub by (rule card_mono)
    moreover have "length (filter (\<lambda>x. x \<in> set ?V') ?T')
        < length (filter (\<lambda>x. x \<in> set visited) (current # to_visit))"
      using True by (simp add: List.insert_def filter_empty_conv)
    ultimately show ?thesis by auto
  next
    case False
    then have "current \<in> ?U" "current \<notin> ?U'" by auto
    then have "?U' \<subset> ?U" using sub by auto
    then have "card ?U' < card ?U" using fin by (rule psubset_card_mono[rotated])
    then show ?thesis by auto
  qed
qed

text \<open>
  The loop that fills \<^verbatim>\<open>referenced\<close> with \<^verbatim>\<open>sheet_.GetCellPtr(pos)\<close>, pointers that
  may be null.
\<close>

primrec referenced_pointers :: "'d Sheet \<Rightarrow> Position list \<Rightarrow> Position option list outcome" where
  "referenced_pointers s [] = Returns []"
| "referenced_pointers s (pos # rest) =
     (case GetCellPtr s pos of
        Returns ptr \<Rightarrow>
          (case referenced_pointers s rest of
             Returns ptrs \<Rightarrow> Returns (ptr # ptrs)
           | Throws e \<Rightarrow> Throws e
           | Undefined \<Rightarrow> Undefined)
      | Throws e \<Rightarrow> Throws e
      | Undefined \<Rightarrow> Undefined)"

definition WouldIntroduceCircularDependency ::
  "'d Sheet \<Rightarrow> Position \<Rightarrow> 'd Impl \<Rightarrow> bool outcome" where
  "WouldIntroduceCircularDependency s this new_impl =
     (if Impl_GetReferencedCells new_impl = [] then Returns False
      else (case referenced_pointers s (Impl_GetReferencedCells new_impl) of
              Returns referenced \<Rightarrow> visit_loop s referenced [] [this]
            | Throws e \<Rightarrow> Throws e
            | Undefined \<Rightarrow> Undefined))"

text \<open>
  \<^verbatim>\<open>Cell::InvalidateCacheRecursive\<close>; \<open>fuel\<close> bounds the depth of the recursion.
\<close>

primrec InvalidateCacheRecursive :: "nat \<Rightarrow> bool \<Rightarrow> Position \<Rightarrow> (unit, 'd Sheet) comp" where
  "InvalidateCacheRecursive 0 = (\<lambda>force this s. None)"
| "InvalidateCacheRecursive (Suc fuel) =
     (\<lambda>force this s. case deref s this of
        None \<Rightarrow> Some (Undefined, s)
      | Some c \<Rightarrow>
          if Impl_IsCacheValid (impl c) \<or> force then
            bind (modify_cell this (\<lambda>c. c\<lparr>impl := Impl_InvalidateCache (impl c)\<rparr>))
              (\<lambda>_. for_each (l_nodes c) (InvalidateCacheRecursive fuel False)) s
          else Some (Returns (), s))"

text \<open>
  \<^verbatim>\<open>Cell::UpdateDependencies\<close>, over the referenced cells of the installed body.
  \<open>setCell\<close> is the call \<^verbatim>\<open>sheet_.SetCell\<close>; \<open>UpdateDependencies_body\<close> is the body of
  the loop, for one referenced position.
\<close>

definition UpdateDependencies_body ::
  "(Position \<Rightarrow> string \<Rightarrow> (unit, 'd Sheet) comp) \<Rightarrow> Position \<Rightarrow> Position \<Rightarrow> (unit, 'd Sheet) comp" where
  "UpdateDependencies_body setCell this pos =
     bind (\<lambda>s. Some (GetCellPtr s pos, s)) (\<lambda>found.
     bind (case found of
             None \<Rightarrow> bind (setCell pos []) (\<lambda>_. (\<lambda>s. Some (GetCellPtr s pos, s)))
           | Some q \<Rightarrow> return found) (\<lambda>outgoing.
       (case outgoing of
          None \<Rightarrow> undefined_behaviour
        | Some q \<Rightarrow>
            bind (modify_cell this (\<lambda>c. c\<lparr>r_nodes := List.insert q (r_nodes c)\<rparr>))
              (\<lambda>_. modify_cell q (\<lambda>d. d\<lparr>l_nodes := List.insert this (l_nodes d)\<rparr>)))))"

definition UpdateDependencies ::
  "(Position \<Rightarrow> string \<Rightarrow> (unit, 'd Sheet) comp) \<Rightarrow> Position \<Rightarrow> Position list \<Rightarrow> (unit, 'd Sheet) comp" where
  "UpdateDependencies setCell this refs = for_each refs (UpdateDependencies_body setCell this)"

text \<open>
  \<^verbatim>\<open>Cell::Set\<close> on the cell \<open>this\<close>.
\<close>

definition Cell_Set ::
  "(Position \<Rightarrow> string \<Rightarrow> (unit, 'd Sheet) comp) \<Rightarrow> (string \<Rightarrow> 'd FormulaAST option) \<Rightarrow> nat \<Rightarrow>
   Position \<Rightarrow> string \<Rightarrow> (unit, 'd Sheet) comp" where
  "Cell_Set setCell parse fuel this t =
     (\<lambda>s. case CreateImpl parse t of
        Throws e \<Rightarrow> Some (Throws e, s)
      | Undefined \<Rightarrow> Some (Undefined, s)
      | Returns new_impl \<Rightarrow>
          (case WouldIntroduceCircularDependency s this new_impl of
             Throws e \<Rightarrow> Some (Throws e, s)
           | Undefined \<Rightarrow> Some (Undefined, s)
           | Returns True \<Rightarrow> Some (Throws CircularDependencyException, s)
           | Returns False \<Rightarrow>
               bind (modify_cell this (\<lambda>c. c\<lparr>impl := new_impl\<rparr>)) (\<lambda>_.
               bind (\<lambda>s. case deref s this of
                       None \<Rightarrow> Some (Undefined, s)
                     | Some c \<Rightarrow>
                         for_each (r_nodes c)
                           (\<lambda>outgoing. modify_cell outgoing
                              (\<lambda>d. d\<lparr>l_nodes := removeAll this (l_nodes d)\<rparr>)) s) (\<lambda>_.
               bind (modify_cell this (\<lambda>c. c\<lparr>r_nodes := []\<rparr>)) (\<lambda>_.
               bind (UpdateDependencies setCell this (Impl_GetReferencedCells new_impl)) (\<lambda>_.
               InvalidateCacheRecursive fuel True this)))) s))"

section \<open>sheet.cpp\<close>

text \<open>
  \<^verbatim>\<open>Sheet::SetCell\<close>. The call of \<^verbatim>\<open>sheet_.SetCell\<close> inside
  \<^verbatim>\<open>Cell::UpdateDependencies\<close> makes the function recursive; \<open>fuel\<close> bounds the depth.
\<close>

primrec SetCell ::
  "(string \<Rightarrow> 'd FormulaAST option) \<Rightarrow> nat \<Rightarrow> Position \<Rightarrow> string \<Rightarrow> (unit, 'd Sheet) comp" where
  "SetCell parse 0 = (\<lambda>pos t s. None)"
| "SetCell parse (Suc fuel) =
     (\<lambda>pos t s.
        if \<not> IsValid pos then Some (Throws InvalidPositionException, s)
        else
          (let s' = (case map_of s pos of None \<Rightarrow> s @ [(pos, Some new_Cell)] | Some entry \<Rightarrow> s)
           in case deref s' pos of
                None \<Rightarrow> Some (Undefined, s')
              | Some c \<Rightarrow> Cell_Set (SetCell parse fuel) parse fuel pos t s'))"

text \<open>
  \<^verbatim>\<open>Sheet::ClearCell\<close>: \<^verbatim>\<open>Cell::Clear\<close> is \<^verbatim>\<open>Set("")\<close>, and \<^verbatim>\<open>reset\<close> leaves the entry
  with a null pointer.
\<close>

definition ClearCell ::
  "(string \<Rightarrow> 'd FormulaAST option) \<Rightarrow> nat \<Rightarrow> Position \<Rightarrow> (unit, 'd Sheet) comp" where
  "ClearCell parse fuel pos =
     (\<lambda>s. if \<not> IsValid pos then Some (Throws InvalidPositionException, s)
        else (case map_of s pos of
                Some (Some c) \<Rightarrow>
                  bind (Cell_Set (SetCell parse fuel) parse fuel pos [])
                    (\<lambda>_ s'. case deref s' pos of
                       None \<Rightarrow> Some (Undefined, s')
                     | Some c' \<Rightarrow>
                         if \<not> IsReferenced c' then Some (Returns (), AList.update pos None s')
                         else Some (Returns (), s')) s
              | _ \<Rightarrow> Some (Returns (), s)))"

text \<open>
  \<^verbatim>\<open>Sheet::GetPrintableSize\<close>.
\<close>

datatype Size = Size (rows: int) (cols: int)

definition GetPrintableSize :: "'d Sheet \<Rightarrow> Size" where
  "GetPrintableSize s =
     fold (\<lambda>(pos, cell) result.
        (case cell of
           None \<Rightarrow> result
         | Some c \<Rightarrow>
             if Impl_GetText (impl c) \<noteq> []
             then Size (max (rows result) (row pos + 1)) (max (cols result) (col pos + 1))
             else result)) s (Size 0 0)"

text \<open>
  \<^verbatim>\<open>CreateSheet\<close>: a sheet with no cells.
\<close>

definition CreateSheet :: "'d Sheet" where
  "CreateSheet = []"

section \<open>Positions and formulas of the scenarios\<close>

text \<open>
  Modelled from the spec: the textual form of a position (the letters are the column
  in base 26 with \<open>A\<close> the first column, the number is the row counted from 1).
  \<open>AAA\<close> is column 702 and \<open>ZZZ\<close> is column 18277, counted from 0.
\<close>

definition A1 :: Position where
  "A1 = Position 0 0"

definition B1 :: Position where
  "B1 = Position 0 1"

definition AAA1 :: Position where
  "AAA1 = Position 0 702"

definition ZZ9999 :: Position where
  "ZZ9999 = Position 9998 701"

definition ZZZ9999 :: Position where
  "ZZZ9999 = Position 9998 18277"

text \<open>
  Modelled from the spec: the trees of a number, of a single cell reference, of the
  sum of three references and of a division by zero, as \<^verbatim>\<open>ParseFormulaAST\<close> builds them
  (section 4.3 of the specification). \<open>scenario_parse\<close> is the parser on the formulas
  of the scenarios and fails elsewhere.
\<close>

definition number_ast :: "string \<Rightarrow> int \<Rightarrow> int FormulaAST" where
  "number_ast t d = \<lparr>GetCells = [], PrintFormula = t, Execute = Yield d\<rparr>"

definition reference_ast :: "string \<Rightarrow> Position \<Rightarrow> int FormulaAST" where
  "reference_ast t p = \<lparr>GetCells = [p], PrintFormula = t, Execute = Lookup p Yield\<rparr>"

definition sum3_ast :: "string \<Rightarrow> Position \<Rightarrow> Position \<Rightarrow> Position \<Rightarrow> int FormulaAST" where
  "sum3_ast t p q r =
     \<lparr>GetCells = [p, q, r], PrintFormula = t,
      Execute = Lookup p (\<lambda>a. Lookup q (\<lambda>b. Lookup r (\<lambda>c. Yield (a + b + c))))\<rparr>"

definition division_by_zero_ast :: "string \<Rightarrow> int FormulaAST" where
  "division_by_zero_ast t = \<lparr>GetCells = [], PrintFormula = t, Execute = Fail Arithmetic\<rparr>"

definition scenario_parse :: "string \<Rightarrow> int FormulaAST option" where
  "scenario_parse t =
     (if t = ''1'' then Some (number_ast t 1)
      else if t = ''A1'' then Some (reference_ast t A1)
      else if t = ''B1'' then Some (reference_ast t B1)
      else if t = ''ZZ9999'' then Some (reference_ast t ZZ9999)
      else if t = ''ZZZ9999'' then Some (reference_ast t ZZZ9999)
      else if t = ''A1+B1+A1'' then Some (sum3_ast t A1 B1 A1)
      else if t = ''1/0'' then Some (division_by_zero_ast t)
      else None)"

text \<open>
  The stream extraction on the texts of the scenarios: \<open>10\<close> and \<open>20\<close> are read to the
  end, \<open>10x\<close> is read up to the letter, a text with no leading number fails.
\<close>

definition scenario_extract :: "string \<Rightarrow> (int \<times> bool) option" where
  "scenario_extract t =
     (if t = ''10'' then Some (10, True)
      else if t = ''20'' then Some (20, True)
      else if t = ''10x'' then Some (10, False)
      else None)"

text \<open>
  The sheet after \<^verbatim>\<open>SetCell(A1, "=B1")\<close> on a new sheet: \<open>B1\<close> is materialized as an Empty
  cell that \<open>A1\<close> reads.
\<close>

definition sheet_A1_reads_B1 :: "int Sheet" where
  "sheet_A1_reads_B1 =
     [(A1, Some \<lparr>impl = FormulaImpl (reference_ast ''B1'' B1) None, l_nodes = [], r_nodes = [B1]\<rparr>),
      (B1, Some \<lparr>impl = EmptyImpl, l_nodes = [A1], r_nodes = []\<rparr>)]"

text \<open>
  A sheet where the formula of \<open>A1\<close> reads \<open>B1\<close>, and \<open>B1\<close> holds the text \<open>10\<close>.
\<close>

definition sheet_A1_reads_10 :: "int Sheet" where
  "sheet_A1_reads_10 =
     [(A1, Some \<lparr>impl = FormulaImpl (reference_ast ''B1'' B1) None, l_nodes = [], r_nodes = [B1]\<rparr>),
      (B1, Some \<lparr>impl = TextImpl ''10'', l_nodes = [A1], r_nodes = []\<rparr>)]"

section \<open>Notions used in the statements\<close>

text \<open>
  A computation that throws no exception, from any state.
\<close>

definition no_throw :: "('a, 's) comp \<Rightarrow> bool" where
  "no_throw m = (\<forall>s r s'. m s = Some (r, s') \<longrightarrow> (\<forall>e. r \<noteq> Throws e))"

text \<open>
  A computation that leaves an observation \<open>h\<close> of the state as it was.
\<close>

definition preserves :: "('s \<Rightarrow> 'b) \<Rightarrow> ('a, 's) comp \<Rightarrow> bool" where
  "preserves h m = (\<forall>s r s'. m s = Some (r, s') \<longrightarrow> h s' = h s)"

text \<open>
  The adjacency sets of the cell at a position (empty where no live cell stands), the
  graph of the outgoing edges, and the invariant I1 of the specification: \<open>d\<close> is in
  the outgoing set of \<open>c\<close> exactly when \<open>c\<close> is in the incoming set of \<open>d\<close>.
\<close>

definition incoming :: "'d Sheet \<Rightarrow> Position \<Rightarrow> Position set" where
  "incoming s p = (case deref s p of None \<Rightarrow> {} | Some c \<Rightarrow> set (l_nodes c))"

definition outgoing :: "'d Sheet \<Rightarrow> Position \<Rightarrow> Position set" where
  "outgoing s p = (case deref s p of None \<Rightarrow> {} | Some c \<Rightarrow> set (r_nodes c))"

definition edges :: "'d Sheet \<Rightarrow> (Position \<times> Position) set" where
  "edges s = {(c, d). d \<in> outgoing s c}"

definition edge_mirror :: "'d Sheet \<Rightarrow> bool" where
  "edge_mirror s = (\<forall>c d. d \<in> outgoing s c \<longleftrightarrow> c \<in> incoming s d)"

text \<open>
  The invariants I1 and I2 of the specification together.
\<close>

definition sheet_invariant :: "'d Sheet \<Rightarrow> bool" where
  "sheet_invariant s = (edge_mirror s \<and> acyclic (edges s))"

text \<open>
  The cells that read the cell at \<open>p\<close>, directly or through other cells.
\<close>

definition readers :: "'d Sheet \<Rightarrow> Position \<Rightarrow> Position set" where
  "readers s p = {q. (q, p) \<in> (edges s)\<^sup>+}"

text \<open>
  The sheet with every cache emptied: what a sheet is apart from its caches.
\<close>

definition forget_cell :: "'d Cell \<Rightarrow> 'd Cell" where
  "forget_cell c = c\<lparr>impl := Impl_InvalidateCache (impl c)\<rparr>"

definition forget :: "'d Sheet \<Rightarrow> 'd Sheet" where
  "forget s = map (\<lambda>(p, v). (p, map_option forget_cell v)) s"

text \<open>
  A computation whose outcome does not depend on the caches: from two states that
  agree apart from the caches (and the counter) it ends alike.
\<close>

definition cache_blind :: "('a, 'd EvalState) comp \<Rightarrow> bool" where
  "cache_blind m =
     (\<forall>st st'. forget (fst st) = forget (fst st') \<longrightarrow> map_option fst (m st) = map_option fst (m st'))"

text \<open>
  The sheets a program can reach: from the new sheet by \<^verbatim>\<open>SetCell\<close>, \<^verbatim>\<open>ClearCell\<close> and
  \<^verbatim>\<open>GetCell(pos)->GetValue()\<close>, each call returning or throwing (the program may catch
  the exception and go on). A call that runs into undefined behaviour ends the run.
\<close>

inductive reachable ::
  "(string \<Rightarrow> 'd FormulaAST option) \<Rightarrow> (string \<Rightarrow> ('d::zero \<times> bool) option) \<Rightarrow> 'd Sheet \<Rightarrow> bool"
  for parse and read where
    reachable_CreateSheet: "reachable parse read CreateSheet"
  | reachable_SetCell:
      "reachable parse read s \<Longrightarrow> SetCell parse fuel pos t s = Some (r, s') \<Longrightarrow> r \<noteq> Undefined
       \<Longrightarrow> reachable parse read s'"
  | reachable_ClearCell:
      "reachable parse read s \<Longrightarrow> ClearCell parse fuel pos s = Some (r, s') \<Longrightarrow> r \<noteq> Undefined
       \<Longrightarrow> reachable parse read s'"
  | reachable_GetValue:
      "reachable parse read s \<Longrightarrow> GetCell s pos = Returns (Some cell)
       \<Longrightarrow> Cell_GetValue read fuel cell (s, calls) = Some (r, s', calls') \<Longrightarrow> r \<noteq> Undefined
       \<Longrightarrow> reachable parse read s'"

text \<open>
  What \<^verbatim>\<open>GetValue\<close> of a formula cell makes of the outcome of \<^verbatim>\<open>ast_.Execute\<close>: the
  handler of \<^verbatim>\<open>Formula::Evaluate\<close> turns a thrown \<^verbatim>\<open>FormulaError\<close> into a value, and
  \<^verbatim>\<open>FormulaImpl::GetValue\<close> converts the double or the error into a cell value.
\<close>

fun surface :: "'d outcome \<Rightarrow> 'd CellValue outcome" where
  "surface (Returns d) = Returns (VDouble d)"
| "surface (Throws (Thrown e)) = Returns (VError e)"
| "surface (Throws x) = Throws x"
| "surface Undefined = Undefined"

section \<open>Basic facts\<close>

lemma IsValid_A1: "IsValid A1"
  by (simp add: IsValid_def A1_def MAX_ROWS_def MAX_COLS_def)

lemma IsValid_B1: "IsValid B1"
  by (simp add: IsValid_def B1_def MAX_ROWS_def MAX_COLS_def)

lemma IsValid_AAA1: "IsValid AAA1"
  by (simp add: IsValid_def AAA1_def MAX_ROWS_def MAX_COLS_def)

lemma IsValid_ZZ9999: "IsValid ZZ9999"
  by (simp add: IsValid_def ZZ9999_def MAX_ROWS_def MAX_COLS_def)

lemma not_IsValid_ZZZ9999: "\<not> IsValid ZZZ9999"
  by (simp add: IsValid_def ZZZ9999_def MAX_ROWS_def MAX_COLS_def)

lemma A1_neq_B1: "A1 \<noteq> B1" "B1 \<noteq> A1"
  by (simp_all add: A1_def B1_def)

lemma GetReferencedCells_valid: "p \<in> set (Formula_GetReferencedCells ast) \<Longrightarrow> IsValid p"
  by (simp add: Formula_GetReferencedCells_def)

lemma GetReferencedCells_adjacent:
  "Suc i < length (Formula_GetReferencedCells ast) \<Longrightarrow>
   Formula_GetReferencedCells ast ! i \<noteq> Formula_GetReferencedCells ast ! Suc i"
  unfolding Formula_GetReferencedCells_def by (rule remdups_adj_adjacent)

text \<open>
  What \<^verbatim>\<open>std::unique\<close> gives depends on the order of \<^verbatim>\<open>GetCells\<close>: on a list that
  is sorted by some key that tells positions apart, equal positions are adjacent and
  the result has no position twice.
\<close>

lemma distinct_remdups_adj_sorted:
  "sorted (xs :: 'a::linorder list) \<Longrightarrow> distinct (remdups_adj xs)"
proof (induction xs rule: remdups_adj.induct)
  case (3 x y xs)
  then show ?case by (cases "x = y") auto
qed simp_all

lemma GetReferencedCells_distinct_if_sorted:
  fixes key :: "Position \<Rightarrow> 'a::linorder"
  assumes "inj key" and "sorted (map key (GetCells ast))"
  shows "distinct (Formula_GetReferencedCells ast)"
proof -
  have "sorted (map key (filter IsValid (GetCells ast)))"
    using assms(2) by (rule sorted_filter)
  then have "distinct (remdups_adj (map key (filter IsValid (GetCells ast))))"
    by (rule distinct_remdups_adj_sorted)
  then have "distinct (map key (remdups_adj (filter IsValid (GetCells ast))))"
    by (simp add: remdups_adj_map_injective[OF assms(1)])
  then show ?thesis
    by (simp add: Formula_GetReferencedCells_def distinct_map)
qed

text \<open>
  On a list where a position comes back after another one, the repetition stays.
\<close>

lemma GetReferencedCells_repeats_apart:
  "Formula_GetReferencedCells (sum3_ast ''A1+B1+A1'' A1 B1 A1) = [A1, B1, A1]"
  by (simp add: Formula_GetReferencedCells_def sum3_ast_def IsValid_A1 IsValid_B1 A1_neq_B1)

lemma Impl_GetReferencedCells_valid: "p \<in> set (Impl_GetReferencedCells body) \<Longrightarrow> IsValid p"
  by (cases body) (auto simp: Impl_GetReferencedCells_def dest: GetReferencedCells_valid)

subsection \<open>Computations that do not throw\<close>

lemma no_throwD: "no_throw m \<Longrightarrow> m s = Some (Throws e, s') \<Longrightarrow> False"
  by (auto simp: no_throw_def)

lemma no_throw_return: "no_throw (return x)"
  by (simp add: no_throw_def return_def)

lemma no_throw_modify_cell: "no_throw (modify_cell p f)"
  by (auto simp: no_throw_def modify_cell_def split: option.splits)

lemma no_throw_bind: "no_throw m \<Longrightarrow> (\<And>a. no_throw (f a)) \<Longrightarrow> no_throw (bind m f)"
  unfolding no_throw_def bind_def
  by (auto split: option.splits outcome.splits prod.splits)

lemma no_throw_for_each: "(\<And>x. no_throw (f x)) \<Longrightarrow> no_throw (for_each xs f)"
  by (induction xs) (auto intro: no_throw_return no_throw_bind)

lemma no_throw_InvalidateCacheRecursive:
  "no_throw (InvalidateCacheRecursive fuel force this :: (unit, 'd Sheet) comp)"
proof (induction fuel arbitrary: force this)
  case 0
  show ?case by (simp add: no_throw_def)
next
  case (Suc fuel)
  have "no_throw (bind (modify_cell this f) (\<lambda>_. for_each xs (InvalidateCacheRecursive fuel False)))"
    for f :: "'d Cell \<Rightarrow> 'd Cell" and xs
    by (intro no_throw_bind no_throw_modify_cell no_throw_for_each) (rule Suc)
  then show ?case
    unfolding no_throw_def by (auto split: option.splits if_splits)
qed

lemma CreateImpl_empty: "CreateImpl parse [] = Returns EmptyImpl"
  by (simp add: CreateImpl_def)

lemma WouldIntroduce_EmptyImpl: "WouldIntroduceCircularDependency s this EmptyImpl = Returns False"
  by (simp add: WouldIntroduceCircularDependency_def Impl_GetReferencedCells_def)

lemma no_throw_erase_incoming:
  "no_throw (\<lambda>s. case deref s this of
       None \<Rightarrow> Some (Undefined, s)
     | Some c \<Rightarrow>
         for_each (r_nodes c)
           (\<lambda>outgoing. modify_cell outgoing (\<lambda>d. d\<lparr>l_nodes := removeAll this (l_nodes d)\<rparr>)) s)"
  using no_throw_for_each[of "\<lambda>outgoing. modify_cell outgoing (\<lambda>d. d\<lparr>l_nodes := removeAll this (l_nodes d)\<rparr>)",
      OF no_throw_modify_cell]
  by (auto simp: no_throw_def split: option.splits)

lemma no_throw_Cell_Set_empty: "no_throw (Cell_Set setCell parse fuel this [])"
proof -
  have "no_throw (bind (modify_cell this (\<lambda>c. c\<lparr>impl := EmptyImpl\<rparr>)) (\<lambda>_.
               bind (\<lambda>s. case deref s this of
                       None \<Rightarrow> Some (Undefined, s)
                     | Some c \<Rightarrow>
                         for_each (r_nodes c)
                           (\<lambda>outgoing. modify_cell outgoing
                              (\<lambda>d. d\<lparr>l_nodes := removeAll this (l_nodes d)\<rparr>)) s) (\<lambda>_.
               bind (modify_cell this (\<lambda>c. c\<lparr>r_nodes := []\<rparr>)) (\<lambda>_.
               bind (UpdateDependencies setCell this (Impl_GetReferencedCells EmptyImpl)) (\<lambda>_.
               InvalidateCacheRecursive fuel True this)))))"
    apply (intro no_throw_bind no_throw_modify_cell no_throw_InvalidateCacheRecursive
        no_throw_erase_incoming)
    apply (simp add: UpdateDependencies_def Impl_GetReferencedCells_def no_throw_return)
    done
  then show ?thesis
    unfolding no_throw_def Cell_Set_def by (simp add: CreateImpl_empty WouldIntroduce_EmptyImpl)
qed

subsection \<open>Errors of the evaluation\<close>

lemma catch_FormulaError_not_Thrown: "catch_FormulaError r \<noteq> Throws (Thrown e)"
  by (cases r rule: catch_FormulaError.cases) simp_all

lemma catch_FormulaError_FError:
  "catch_FormulaError r = Returns (FError e) \<longleftrightarrow> r = Throws (Thrown e)"
  by (cases r rule: catch_FormulaError.cases) simp_all

lemma Formula_Evaluate_not_Thrown:
  "Formula_Evaluate args ast st \<noteq> Some (Throws (Thrown e), st')"
  by (auto simp: Formula_Evaluate_def catch_FormulaError_not_Thrown split: prod.splits option.splits)

lemma Formula_Evaluate_FError:
  "Formula_Evaluate args ast (s, k) = Some (Returns (FError e), st')
   \<longleftrightarrow> FormulaAST_Execute (Execute ast) args (s, Suc k) = Some (Throws (Thrown e), st')"
  by (auto simp: Formula_Evaluate_def catch_FormulaError_FError split: prod.splits option.splits)

subsection \<open>Lookups after a write\<close>

lemma deref_update: "deref (AList.update p v s) q = (if q = p then v else deref s q)"
  by (cases v) (simp_all add: deref_def update_conv')

lemma map_of_update_None: "map_of (AList.update p v s) q = None \<longleftrightarrow> q \<noteq> p \<and> map_of s q = None"
  by (simp add: update_conv')

lemma deref_append: "map_of s p = None \<Longrightarrow> deref (s @ [(p, v)]) q = (if q = p then v else deref s q)"
  by (cases v) (auto simp: deref_def map_add_def split: option.splits)

lemma deref_Some_map_of: "deref s p = Some c \<longleftrightarrow> map_of s p = Some (Some c)"
  by (auto simp: deref_def split: option.splits)

lemma deref_None_absent: "map_of s p = None \<Longrightarrow> deref s p = None"
  by (simp add: deref_def)

lemma outgoing_update:
  "outgoing (AList.update p v s) q =
     (if q = p then (case v of None \<Rightarrow> {} | Some c \<Rightarrow> set (r_nodes c)) else outgoing s q)"
  by (simp add: outgoing_def deref_update)

lemma incoming_update:
  "incoming (AList.update p v s) q =
     (if q = p then (case v of None \<Rightarrow> {} | Some c \<Rightarrow> set (l_nodes c)) else incoming s q)"
  by (simp add: incoming_def deref_update)

lemma outgoing_append_new_Cell:
  "map_of s p = None \<Longrightarrow> outgoing (s @ [(p, Some new_Cell)]) = outgoing s"
  by (rule ext) (simp add: outgoing_def deref_append new_Cell_def deref_None_absent)

lemma incoming_append_new_Cell:
  "map_of s p = None \<Longrightarrow> incoming (s @ [(p, Some new_Cell)]) = incoming s"
  by (rule ext) (simp add: incoming_def deref_append new_Cell_def deref_None_absent)

subsection \<open>Computations that return\<close>

lemma bind_Returns:
  "bind m f s = Some (Returns b, s') \<longleftrightarrow>
     (\<exists>a s1. m s = Some (Returns a, s1) \<and> f a s1 = Some (Returns b, s'))"
  by (auto simp: bind_def split: option.splits outcome.splits prod.splits)

lemma return_Returns: "return a s = Some (Returns b, s') \<longleftrightarrow> b = a \<and> s' = s"
  by (auto simp: return_def)

lemma modify_cell_Returns:
  "modify_cell p f s = Some (Returns u, s') \<longleftrightarrow>
     (\<exists>c. deref s p = Some c \<and> s' = AList.update p (Some (f c)) s)"
  by (auto simp: modify_cell_def split: option.splits)

subsection \<open>The loop that erases the cell from the incoming sets\<close>

lemma erase_loop:
  assumes "for_each qs (\<lambda>q. modify_cell q g) s = Some (Returns u, s')"
    and "\<And>c. g (g c) = g c"
  shows "deref s' p = (if p \<in> set qs then map_option g (deref s p) else deref s p)"
    and "map_of s' p = None \<longleftrightarrow> map_of s p = None"
  using assms(1)
proof (induction qs arbitrary: s)
  case Nil
  { case 1 then show ?case by (simp add: return_def) }
  { case 2 then show ?case by (simp add: return_def) }
next
  case (Cons q qs)
  { case 1
    then obtain c where c: "deref s q = Some c"
      and r: "for_each qs (\<lambda>q. modify_cell q g) (AList.update q (Some (g c)) s) = Some (Returns u, s')"
      by (auto simp: bind_Returns modify_cell_Returns)
    show ?case using Cons.IH(1)[OF r] c assms(2) by (auto simp: deref_update) }
  { case 2
    then obtain c where c: "deref s q = Some c"
      and r: "for_each qs (\<lambda>q. modify_cell q g) (AList.update q (Some (g c)) s) = Some (Returns u, s')"
      by (auto simp: bind_Returns modify_cell_Returns)
    show ?case using Cons.IH(2)[OF r] c by (auto simp: map_of_update_None deref_Some_map_of) }
qed

subsection \<open>Computations that change the caches only\<close>

lemma preservesD: "preserves h m \<Longrightarrow> m s = Some (r, s') \<Longrightarrow> h s' = h s"
  by (auto simp: preserves_def)

lemma preserves_return: "preserves h (return x)"
  by (simp add: preserves_def return_def)

lemma preserves_throw: "preserves h (throw e)"
  by (simp add: preserves_def throw_def)

lemma preserves_lift: "preserves h (lift r)"
  by (simp add: preserves_def lift_def)

lemma preserves_undefined: "preserves h undefined_behaviour"
  by (simp add: preserves_def undefined_behaviour_def)

lemma preserves_bind: "preserves h m \<Longrightarrow> (\<And>a. preserves h (f a)) \<Longrightarrow> preserves h (bind m f)"
  unfolding preserves_def bind_def
  by (auto split: option.splits outcome.splits prod.splits)

lemma preserves_for_each: "(\<And>x. preserves h (f x)) \<Longrightarrow> preserves h (for_each xs f)"
  by (induction xs) (auto intro: preserves_return preserves_bind)

lemma forget_cell_idem: "forget_cell (forget_cell c) = forget_cell c"
  by (cases "impl c") (simp_all add: forget_cell_def Impl_InvalidateCache_def)

lemma forget_update:
  "deref s p = Some c \<Longrightarrow> forget_cell c' = forget_cell c \<Longrightarrow>
   forget (AList.update p (Some c') s) = forget s"
  by (induction s) (auto simp: forget_def deref_def split: if_splits option.splits)

lemma deref_forget: "deref (forget s) p = map_option forget_cell (deref s p)"
  by (induction s) (auto simp: forget_def deref_def split: option.splits)

lemma map_of_forget_None: "map_of (forget s) p = None \<longleftrightarrow> map_of s p = None"
  by (induction s) (auto simp: forget_def)

lemma outgoing_forget: "outgoing (forget s) = outgoing s"
  by (rule ext) (auto simp: outgoing_def deref_forget forget_cell_def split: option.splits)

lemma incoming_forget: "incoming (forget s) = incoming s"
  by (rule ext) (auto simp: incoming_def deref_forget forget_cell_def split: option.splits)

lemma forget_eq_outgoing: "forget s' = forget s \<Longrightarrow> outgoing s' = outgoing s"
  by (metis outgoing_forget)

lemma forget_eq_incoming: "forget s' = forget s \<Longrightarrow> incoming s' = incoming s"
  by (metis incoming_forget)

lemma forget_eq_absent: "forget s' = forget s \<Longrightarrow> map_of s' p = None \<longleftrightarrow> map_of s p = None"
  by (metis map_of_forget_None)

lemma forget_eq_live: "forget s' = forget s \<Longrightarrow> deref s' p = None \<longleftrightarrow> deref s p = None"
  by (metis deref_forget option.map_disc_iff)

lemma preserves_forget_modify_cell:
  "(\<And>c. forget_cell (f c) = forget_cell c) \<Longrightarrow> preserves forget (modify_cell p f)"
  by (auto simp: preserves_def modify_cell_def forget_update split: option.splits)

lemma preserves_forget_InvalidateCacheRecursive:
  "preserves forget (InvalidateCacheRecursive fuel force this :: (unit, 'd Sheet) comp)"
proof (induction fuel arbitrary: force this)
  case 0
  show ?case by (simp add: preserves_def)
next
  case (Suc fuel)
  have "preserves forget (bind (modify_cell this (\<lambda>c. c\<lparr>impl := Impl_InvalidateCache (impl c)\<rparr>))
          (\<lambda>_. for_each xs (InvalidateCacheRecursive fuel False :: Position \<Rightarrow> (unit, 'd Sheet) comp)))" for xs
    by (intro preserves_bind preserves_forget_modify_cell preserves_for_each)
       (simp_all add: Suc forget_cell_def Impl_InvalidateCache_def split: Impl.splits)
  then show ?case
    unfolding preserves_def by (auto split: option.splits if_splits)
qed

subsection \<open>Materializing an empty cell\<close>

lemma InvalidateCacheRecursive_new_Cell:
  "map_of s pos = None \<Longrightarrow>
   InvalidateCacheRecursive fuel True pos (s @ [(pos, Some new_Cell)]) = Some (r, s') \<Longrightarrow>
   r = Returns () \<and> s' = s @ [(pos, Some new_Cell)]"
  by (cases fuel)
     (auto simp: deref_append new_Cell_def bind_def modify_cell_def return_def update_triv
        Impl_InvalidateCache_def map_add_def split: option.splits)

lemma Cell_Set_new_Cell:
  assumes "map_of s pos = None"
    and "Cell_Set setCell parse fuel pos [] (s @ [(pos, Some new_Cell)]) = Some (r, s')"
  shows "r = Returns () \<and> s' = s @ [(pos, Some new_Cell)]"
proof -
  let ?s = "s @ [(pos, Some new_Cell)]"
  have d: "deref ?s pos = Some new_Cell" using assms(1) by (simp add: deref_append)
  have m: "map_of ?s pos = Some (Some new_Cell)" using assms(1) by (simp add: map_add_def)
  have 1: "modify_cell pos (\<lambda>c. c\<lparr>impl := EmptyImpl\<rparr>) ?s = Some (Returns (), ?s)"
    using d m by (simp add: modify_cell_def new_Cell_def update_triv)
  have 2: "modify_cell pos (\<lambda>c. c\<lparr>r_nodes := []\<rparr>) ?s = Some (Returns (), ?s)"
    using d m by (simp add: modify_cell_def new_Cell_def update_triv)
  have "Cell_Set setCell parse fuel pos [] ?s = InvalidateCacheRecursive fuel True pos ?s"
    using 1 2 d
    by (simp add: Cell_Set_def CreateImpl_empty WouldIntroduce_EmptyImpl bind_def
        UpdateDependencies_def Impl_GetReferencedCells_def return_def new_Cell_def)
  then show ?thesis using assms InvalidateCacheRecursive_new_Cell by metis
qed

lemma SetCell_empty_new:
  assumes "deref s pos = None" and "SetCell parse fuel pos [] s = Some (r, s')"
  shows "(r = Returns () \<and> map_of s pos = None \<and> s' = s @ [(pos, Some new_Cell)])
       \<or> (r = Undefined \<and> map_of s pos = Some None \<and> s' = s)
       \<or> (r = Throws InvalidPositionException \<and> \<not> IsValid pos \<and> s' = s)"
proof (cases fuel)
  case 0
  then show ?thesis using assms by simp
next
  case (Suc n)
  show ?thesis
  proof (cases "IsValid pos")
    case False
    then show ?thesis using assms Suc by simp
  next
    case True
    show ?thesis
    proof (cases "map_of s pos")
      case None
      then have "Cell_Set (SetCell parse n) parse n pos [] (s @ [(pos, Some new_Cell)]) = Some (r, s')"
        using assms Suc True by (simp add: deref_append)
      then show ?thesis using Cell_Set_new_Cell None by blast
    next
      case (Some entry)
      then have "entry = None" using assms(1) by (cases entry) (simp_all add: deref_def)
      then show ?thesis using assms Suc True Some by simp
    qed
  qed
qed

subsection \<open>The loop of UpdateDependencies\<close>

lemma GetCellPtr_eq:
  "GetCellPtr s pos =
     (if \<not> IsValid pos then Throws InvalidPositionException
      else if deref s pos = None then Returns None else Returns (Some pos))"
  by (auto simp: GetCellPtr_def deref_def split: option.splits)

lemma UpdateDependencies_body_Returns:
  assumes "UpdateDependencies_body (SetCell parse n) this pos s = Some (Returns u, s')"
  shows "IsValid pos"
    and "outgoing s' = (outgoing s)(this := insert pos (outgoing s this))"
    and "incoming s' = (incoming s)(pos := insert this (incoming s pos))"
    and "deref s' p = None \<longleftrightarrow> p \<noteq> pos \<and> deref s p = None"
proof -
  from assms obtain found s0 where f: "GetCellPtr s pos = Returns found"
    by (auto simp: UpdateDependencies_body_def bind_Returns)
  then show v: "IsValid pos" by (auto simp: GetCellPtr_eq split: if_splits)
  define s1 where "s1 = (if deref s pos = None then s @ [(pos, Some new_Cell)] else s)"
  have s1: "deref s1 pos \<noteq> None \<and> outgoing s1 = outgoing s \<and> incoming s1 = incoming s
      \<and> (\<forall>p. deref s1 p = None \<longleftrightarrow> p \<noteq> pos \<and> deref s p = None)
      \<and> bind (modify_cell this (\<lambda>c. c\<lparr>r_nodes := List.insert pos (r_nodes c)\<rparr>))
              (\<lambda>_. modify_cell pos (\<lambda>d. d\<lparr>l_nodes := List.insert this (l_nodes d)\<rparr>)) s1
          = Some (Returns u, s')"
  proof (cases "deref s pos = None")
    case True
    then have found: "found = None" using f v by (simp add: GetCellPtr_eq)
    with assms f obtain t where t: "SetCell parse n pos [] s = Some (Returns (), t)"
      and rest: "bind (\<lambda>s. Some (GetCellPtr s pos, s)) (\<lambda>outgoing.
         (case outgoing of
            None \<Rightarrow> undefined_behaviour
          | Some q \<Rightarrow>
            bind (modify_cell this (\<lambda>c. c\<lparr>r_nodes := List.insert q (r_nodes c)\<rparr>))
              (\<lambda>_. modify_cell q (\<lambda>d. d\<lparr>l_nodes := List.insert this (l_nodes d)\<rparr>)))) t
          = Some (Returns u, s')"
      by (auto simp: UpdateDependencies_body_def bind_Returns)
    from SetCell_empty_new[OF True t] have abs: "map_of s pos = None" and t': "t = s @ [(pos, Some new_Cell)]"
      by auto
    have "GetCellPtr t pos = Returns (Some pos)"
      using abs v by (simp add: GetCellPtr_eq t' deref_append)
    with rest have "bind (modify_cell this (\<lambda>c. c\<lparr>r_nodes := List.insert pos (r_nodes c)\<rparr>))
              (\<lambda>_. modify_cell pos (\<lambda>d. d\<lparr>l_nodes := List.insert this (l_nodes d)\<rparr>)) t
          = Some (Returns u, s')"
      by (auto simp: bind_Returns)
    then show ?thesis
      using True abs by (simp add: s1_def t' deref_append outgoing_append_new_Cell incoming_append_new_Cell)
  next
    case False
    then have found: "found = Some pos" using f v by (auto simp: GetCellPtr_eq)
    with assms f have "bind (modify_cell this (\<lambda>c. c\<lparr>r_nodes := List.insert pos (r_nodes c)\<rparr>))
              (\<lambda>_. modify_cell pos (\<lambda>d. d\<lparr>l_nodes := List.insert this (l_nodes d)\<rparr>)) s
          = Some (Returns u, s')"
      by (auto simp: UpdateDependencies_body_def bind_Returns return_def)
    then show ?thesis using False by (auto simp: s1_def)
  qed
  then have s1o: "outgoing s1 = outgoing s" and s1i: "incoming s1 = incoming s"
    and s1d: "\<And>p. deref s1 p = None \<longleftrightarrow> p \<noteq> pos \<and> deref s p = None"
    by blast+
  from s1 obtain c d where c: "deref s1 this = Some c"
    and d: "deref (AList.update this (Some (c\<lparr>r_nodes := List.insert pos (r_nodes c)\<rparr>)) s1) pos = Some d"
    and s': "s' = AList.update pos (Some (d\<lparr>l_nodes := List.insert this (l_nodes d)\<rparr>))
               (AList.update this (Some (c\<lparr>r_nodes := List.insert pos (r_nodes c)\<rparr>)) s1)"
    by (auto simp: bind_Returns modify_cell_Returns)
  have o1: "set (r_nodes c) = outgoing s1 this" and i1: "set (l_nodes c) = incoming s1 this"
    using c by (simp_all add: outgoing_def incoming_def)
  have od: "set (r_nodes d) = (if pos = this then insert pos (outgoing s1 this) else outgoing s1 pos)"
    and id: "set (l_nodes d) = incoming s1 pos"
    using c d by (auto simp: deref_update outgoing_def incoming_def split: if_splits)
  have "outgoing s' = (outgoing s1)(this := insert pos (outgoing s1 this))"
    unfolding s' by (rule ext) (simp add: outgoing_update od o1)
  then show "outgoing s' = (outgoing s)(this := insert pos (outgoing s this))"
    by (simp only: s1o)
  have "incoming s' = (incoming s1)(pos := insert this (incoming s1 pos))"
    unfolding s' by (rule ext) (simp add: incoming_update id i1)
  then show "incoming s' = (incoming s)(pos := insert this (incoming s pos))"
    by (simp only: s1i)
  show "deref s' p = None \<longleftrightarrow> p \<noteq> pos \<and> deref s p = None"
    using s1d[of p] s1d[of this] c d unfolding s' by (auto simp: deref_update)
qed

lemma UpdateDependencies_Returns:
  assumes "UpdateDependencies (SetCell parse n) this refs s = Some (Returns u, s')"
  shows "\<forall>pos \<in> set refs. IsValid pos"
    and "outgoing s' = (outgoing s)(this := outgoing s this \<union> set refs)"
    and "incoming s' = (\<lambda>q. if q \<in> set refs then insert this (incoming s q) else incoming s q)"
    and "deref s' p = None \<longleftrightarrow> p \<notin> set refs \<and> deref s p = None"
  using assms unfolding UpdateDependencies_def
proof (induction refs arbitrary: s)
  case Nil
  { case 1 show ?case by simp }
  { case 2 then show ?case by (simp add: return_def) }
  { case 3 then show ?case by (simp add: return_def) }
  { case 4 then show ?case by (simp add: return_def) }
next
  case (Cons pos refs)
  { case 1
    then obtain s1 where a: "UpdateDependencies_body (SetCell parse n) this pos s = Some (Returns (), s1)"
      and b: "for_each refs (UpdateDependencies_body (SetCell parse n) this) s1 = Some (Returns u, s')"
      by (auto simp: bind_Returns)
    show ?case using UpdateDependencies_body_Returns(1)[OF a] Cons.IH(1)[OF b] by simp }
  { case 2
    then obtain s1 where a: "UpdateDependencies_body (SetCell parse n) this pos s = Some (Returns (), s1)"
      and b: "for_each refs (UpdateDependencies_body (SetCell parse n) this) s1 = Some (Returns u, s')"
      by (auto simp: bind_Returns)
    show ?case using UpdateDependencies_body_Returns(2)[OF a] Cons.IH(2)[OF b] by (auto simp: fun_eq_iff) }
  { case 3
    then obtain s1 where a: "UpdateDependencies_body (SetCell parse n) this pos s = Some (Returns (), s1)"
      and b: "for_each refs (UpdateDependencies_body (SetCell parse n) this) s1 = Some (Returns u, s')"
      by (auto simp: bind_Returns)
    show ?case using UpdateDependencies_body_Returns(3)[OF a] Cons.IH(3)[OF b] by (auto simp: fun_eq_iff) }
  { case 4
    then obtain s1 where a: "UpdateDependencies_body (SetCell parse n) this pos s = Some (Returns (), s1)"
      and b: "for_each refs (UpdateDependencies_body (SetCell parse n) this) s1 = Some (Returns u, s')"
      by (auto simp: bind_Returns)
    show ?case using UpdateDependencies_body_Returns(4)[OF a] Cons.IH(4)[OF b] by auto }
qed

subsection \<open>The exceptions of Cell::Set\<close>

lemma UpdateDependencies_body_no_throw:
  assumes "IsValid pos"
  shows "UpdateDependencies_body (SetCell parse n) this pos s \<noteq> Some (Throws e, s')"
proof
  assume a: "UpdateDependencies_body (SetCell parse n) this pos s = Some (Throws e, s')"
  show False
  proof (cases "deref s pos = None")
    case True
    then have g: "GetCellPtr s pos = Returns None" using assms by (simp add: GetCellPtr_eq)
    show False
    proof (cases "SetCell parse n pos [] s")
      case None
      then show False using a g by (simp add: UpdateDependencies_body_def bind_def)
    next
      case (Some x)
      obtain r t where x: "x = (r, t)" by (cases x)
      from SetCell_empty_new[OF True Some[unfolded x]] assms
      consider "r = Returns ()" "t = s @ [(pos, Some new_Cell)]" "map_of s pos = None"
        | "r = Undefined" by fastforce
      then show False
      proof cases
        case 1
        then have "GetCellPtr t pos = Returns (Some pos)"
          using assms by (simp add: GetCellPtr_eq deref_append)
        then show False using a g Some x 1(1)
          using no_throwD[OF no_throw_modify_cell]
          by (auto simp: UpdateDependencies_body_def bind_def split: option.splits outcome.splits prod.splits)
      next
        case 2
        then show False using a g Some x
          by (simp add: UpdateDependencies_body_def bind_def)
      qed
    qed
  next
    case False
    then have g: "GetCellPtr s pos = Returns (Some pos)" using assms by (auto simp: GetCellPtr_eq)
    show False using a g
      using no_throwD[OF no_throw_modify_cell]
      by (auto simp: UpdateDependencies_body_def bind_def return_def split: option.splits outcome.splits prod.splits)
  qed
qed

lemma UpdateDependencies_no_throw:
  assumes "\<forall>pos \<in> set refs. IsValid pos"
  shows "UpdateDependencies (SetCell parse n) this refs s \<noteq> Some (Throws e, s')"
  using assms unfolding UpdateDependencies_def
proof (induction refs arbitrary: s)
  case Nil
  then show ?case by (simp add: return_def)
next
  case (Cons pos refs)
  then show ?case
    using UpdateDependencies_body_no_throw[of pos parse n this s e]
    by (auto simp: bind_def split: option.splits outcome.splits prod.splits)
qed


lemma referenced_pointers_valid:
  "\<forall>pos \<in> set refs. IsValid pos \<Longrightarrow>
   referenced_pointers s refs = Returns (map (\<lambda>pos. if deref s pos = None then None else Some pos) refs)"
  by (induction refs) (simp_all add: GetCellPtr_eq)

lemma visit_loop_no_throw: "visit_loop s referenced visited to_visit \<noteq> Throws e"
  by (induction s referenced visited to_visit rule: visit_loop.induct)
     (auto split: option.splits)

lemma WouldIntroduce_no_throw:
  "WouldIntroduceCircularDependency s this new_impl \<noteq> Throws e"
  using referenced_pointers_valid[of "Impl_GetReferencedCells new_impl" s]
    Impl_GetReferencedCells_valid[of _ new_impl]
  by (auto simp: WouldIntroduceCircularDependency_def visit_loop_no_throw simp del: visit_loop.simps)

lemma CreateImpl_Throws: "CreateImpl parse t = Throws e \<Longrightarrow> e = FormulaException"
  by (auto simp: CreateImpl_def new_TextImpl_def new_FormulaImpl_def ParseFormula_def
      split: if_splits option.splits)

lemma CreateImpl_not_Undefined: "CreateImpl parse t \<noteq> Undefined"
  by (auto simp: CreateImpl_def new_TextImpl_def new_FormulaImpl_def ParseFormula_def
      split: if_splits option.splits)

text \<open>
  The part of \<^verbatim>\<open>Cell::Set\<close> after the cycle check.
\<close>

lemma Cell_Set_unfold:
  "Cell_Set setCell parse fuel this t s =
     (case CreateImpl parse t of
        Throws e \<Rightarrow> Some (Throws e, s)
      | Undefined \<Rightarrow> Some (Undefined, s)
      | Returns new_impl \<Rightarrow>
          (case WouldIntroduceCircularDependency s this new_impl of
             Throws e \<Rightarrow> Some (Throws e, s)
           | Undefined \<Rightarrow> Some (Undefined, s)
           | Returns True \<Rightarrow> Some (Throws CircularDependencyException, s)
           | Returns False \<Rightarrow>
               bind (modify_cell this (\<lambda>c. c\<lparr>impl := new_impl\<rparr>)) (\<lambda>_.
               bind (\<lambda>s. case deref s this of
                       None \<Rightarrow> Some (Undefined, s)
                     | Some c \<Rightarrow>
                         for_each (r_nodes c)
                           (\<lambda>outgoing. modify_cell outgoing
                              (\<lambda>d. d\<lparr>l_nodes := removeAll this (l_nodes d)\<rparr>)) s) (\<lambda>_.
               bind (modify_cell this (\<lambda>c. c\<lparr>r_nodes := []\<rparr>)) (\<lambda>_.
               bind (UpdateDependencies setCell this (Impl_GetReferencedCells new_impl)) (\<lambda>_.
               InvalidateCacheRecursive fuel True this)))) s))"
  by (simp add: Cell_Set_def)

lemma Cell_Set_install_no_throw:
  assumes "\<forall>pos \<in> set refs. IsValid pos"
  shows "bind (modify_cell this f) (\<lambda>_.
         bind (\<lambda>s. case deref s this of
                 None \<Rightarrow> Some (Undefined, s)
               | Some c \<Rightarrow>
                   for_each (r_nodes c)
                     (\<lambda>outgoing. modify_cell outgoing
                        (\<lambda>d. d\<lparr>l_nodes := removeAll this (l_nodes d)\<rparr>)) s) (\<lambda>_.
         bind (modify_cell this g) (\<lambda>_.
         bind (UpdateDependencies (SetCell parse n) this refs) (\<lambda>_.
         InvalidateCacheRecursive fuel True this)))) s \<noteq> Some (Throws e, s')"
proof -
  have u: "no_throw (UpdateDependencies (SetCell parse n) this refs)"
    using UpdateDependencies_no_throw[OF assms, of parse n this] by (auto simp: no_throw_def)
  have "no_throw (bind (modify_cell this f) (\<lambda>_.
         bind (\<lambda>s. case deref s this of
                 None \<Rightarrow> Some (Undefined, s)
               | Some c \<Rightarrow>
                   for_each (r_nodes c)
                     (\<lambda>outgoing. modify_cell outgoing
                        (\<lambda>d. d\<lparr>l_nodes := removeAll this (l_nodes d)\<rparr>)) s) (\<lambda>_.
         bind (modify_cell this g) (\<lambda>_.
         bind (UpdateDependencies (SetCell parse n) this refs) (\<lambda>_.
         InvalidateCacheRecursive fuel True this)))))"
    by (intro no_throw_bind no_throw_modify_cell no_throw_InvalidateCacheRecursive
        no_throw_erase_incoming u)
  then show ?thesis by (auto simp: no_throw_def)
qed

lemma Cell_Set_Throws:
  assumes "Cell_Set (SetCell parse n) parse fuel this t s = Some (Throws e, s')"
  shows "s' = s"
    and "(e = FormulaException \<and> CreateImpl parse t = Throws FormulaException)
       \<or> (e = CircularDependencyException
           \<and> (\<exists>new_impl. CreateImpl parse t = Returns new_impl
                 \<and> WouldIntroduceCircularDependency s this new_impl = Returns True))"
proof -
  have "s' = s \<and> ((e = FormulaException \<and> CreateImpl parse t = Throws FormulaException)
       \<or> (e = CircularDependencyException
           \<and> (\<exists>new_impl. CreateImpl parse t = Returns new_impl
                 \<and> WouldIntroduceCircularDependency s this new_impl = Returns True)))"
  proof (cases "CreateImpl parse t")
    case (Returns new_impl)
    show ?thesis
    proof (cases "WouldIntroduceCircularDependency s this new_impl")
      case (Returns b)
      show ?thesis
      proof (cases b)
        case True
        then show ?thesis using assms \<open>CreateImpl parse t = Returns new_impl\<close> Returns
          by (simp add: Cell_Set_unfold)
      next
        case False
        then show ?thesis
          using assms \<open>CreateImpl parse t = Returns new_impl\<close> Returns
            Cell_Set_install_no_throw[of "Impl_GetReferencedCells new_impl" this _ _ parse n fuel s e s']
            Impl_GetReferencedCells_valid[of _ new_impl]
          by (simp add: Cell_Set_unfold)
      qed
    next
      case (Throws x)
      then show ?thesis using WouldIntroduce_no_throw by blast
    next
      case Undefined
      then show ?thesis using assms \<open>CreateImpl parse t = Returns new_impl\<close>
        by (simp add: Cell_Set_unfold)
    qed
  next
    case (Throws x)
    then show ?thesis using assms CreateImpl_Throws[of parse t x] by (simp add: Cell_Set_unfold)
  next
    case Undefined
    then show ?thesis using CreateImpl_not_Undefined by blast
  qed
  then show "s' = s"
    and "(e = FormulaException \<and> CreateImpl parse t = Throws FormulaException)
       \<or> (e = CircularDependencyException
           \<and> (\<exists>new_impl. CreateImpl parse t = Returns new_impl
                 \<and> WouldIntroduceCircularDependency s this new_impl = Returns True))"
    by blast+
qed

subsection \<open>The effect of Cell::Set on the graph\<close>

text \<open>
  The first three steps after the cycle check: the body is installed, the cell is
  erased from the incoming sets of the cells it read, and its outgoing set is cleared.
\<close>

lemma unlink_Returns:
  assumes 1: "modify_cell this (\<lambda>c. c\<lparr>impl := new_impl\<rparr>) s = Some (Returns (), s1)"
    and 2: "(case deref s1 this of None \<Rightarrow> Some (Undefined, s1)
             | Some c \<Rightarrow> for_each (r_nodes c)
                 (\<lambda>outgoing. modify_cell outgoing (\<lambda>d. d\<lparr>l_nodes := removeAll this (l_nodes d)\<rparr>)) s1)
            = Some (Returns (), s2)"
    and 3: "modify_cell this (\<lambda>c. c\<lparr>r_nodes := []\<rparr>) s2 = Some (Returns (), s3)"
  shows "outgoing s3 = (outgoing s)(this := {})"
    and "\<And>q. incoming s3 q = incoming s q - (if q \<in> outgoing s this then {this} else {})"
    and "\<And>p. deref s3 p = None \<longleftrightarrow> deref s p = None"
    and "deref s this \<noteq> None"
proof -
  let ?g = "\<lambda>d::'a Cell. d\<lparr>l_nodes := removeAll this (l_nodes d)\<rparr>"
  from 1 obtain c where c: "deref s this = Some c"
    and s1: "s1 = AList.update this (Some (c\<lparr>impl := new_impl\<rparr>)) s"
    by (auto simp: modify_cell_Returns)
  have d1: "deref s1 this = Some (c\<lparr>impl := new_impl\<rparr>)" by (simp add: s1 deref_update)
  have o1: "outgoing s1 = outgoing s" and i1: "incoming s1 = incoming s"
    using c by (auto simp: s1 fun_eq_iff deref_update outgoing_def incoming_def)
  have l1: "deref s1 p = None \<longleftrightarrow> deref s p = None" for p
    using c by (simp add: s1 deref_update)
  from 2 d1 have e: "for_each (r_nodes c) (\<lambda>outgoing. modify_cell outgoing ?g) s1 = Some (Returns (), s2)"
    by simp
  have d2: "deref s2 p = (if p \<in> set (r_nodes c) then map_option ?g (deref s1 p) else deref s1 p)" for p
    by (rule erase_loop(1)[OF e]) simp
  have oc: "set (r_nodes c) = outgoing s this" using c by (simp add: outgoing_def)
  have o2: "outgoing s2 = outgoing s1"
    by (rule ext) (auto simp: outgoing_def d2 split: option.splits)
  have i2: "incoming s2 q = incoming s1 q - (if q \<in> outgoing s this then {this} else {})" for q
    by (auto simp: incoming_def d2 oc split: option.splits)
  have l2: "deref s2 p = None \<longleftrightarrow> deref s1 p = None" for p
    by (simp add: d2)
  from 3 obtain c2 where c2: "deref s2 this = Some c2"
    and s3: "s3 = AList.update this (Some (c2\<lparr>r_nodes := []\<rparr>)) s2"
    by (auto simp: modify_cell_Returns)
  show "outgoing s3 = (outgoing s)(this := {})"
    by (rule ext) (simp add: s3 outgoing_update o2 o1)
  have ic2: "set (l_nodes c2) = incoming s2 this" using c2 by (simp add: incoming_def)
  have "incoming s3 q = incoming s2 q" for q
    by (simp add: s3 incoming_update ic2)
  then show "incoming s3 q = incoming s q - (if q \<in> outgoing s this then {this} else {})" for q
    by (simp only: i2 i1)
  show "deref s3 p = None \<longleftrightarrow> deref s p = None" for p
    using c2 l2[of p] l1[of p] by (auto simp: s3 deref_update)
  show "deref s this \<noteq> None" using c by simp
qed

lemma Cell_Set_Returns:
  assumes "Cell_Set (SetCell parse n) parse fuel this t s = Some (Returns u, s')"
  obtains new_impl where "CreateImpl parse t = Returns new_impl"
    and "WouldIntroduceCircularDependency s this new_impl = Returns False"
    and "outgoing s' = (outgoing s)(this := set (Impl_GetReferencedCells new_impl))"
    and "incoming s' = (\<lambda>q. (if q \<in> set (Impl_GetReferencedCells new_impl) then {this} else {})
           \<union> (incoming s q - (if q \<in> outgoing s this then {this} else {})))"
    and "\<And>p. deref s' p = None \<longleftrightarrow> p \<notin> set (Impl_GetReferencedCells new_impl) \<and> deref s p = None"
    and "deref s this \<noteq> None"
proof -
  from assms obtain new_impl where ci: "CreateImpl parse t = Returns new_impl"
    by (cases "CreateImpl parse t") (auto simp: Cell_Set_unfold)
  let ?refs = "Impl_GetReferencedCells new_impl"
  let ?g = "\<lambda>d::'a Cell. d\<lparr>l_nodes := removeAll this (l_nodes d)\<rparr>"
  from assms ci have wi: "WouldIntroduceCircularDependency s this new_impl = Returns False"
    by (cases "WouldIntroduceCircularDependency s this new_impl")
       (auto simp: Cell_Set_unfold split: bool.splits if_splits)
  from assms ci wi obtain s1 s2 s3 s4 where
    1: "modify_cell this (\<lambda>c. c\<lparr>impl := new_impl\<rparr>) s = Some (Returns (), s1)"
    and 2: "(case deref s1 this of None \<Rightarrow> Some (Undefined, s1)
             | Some c \<Rightarrow> for_each (r_nodes c) (\<lambda>outgoing. modify_cell outgoing ?g) s1)
            = Some (Returns (), s2)"
    and 3: "modify_cell this (\<lambda>c. c\<lparr>r_nodes := []\<rparr>) s2 = Some (Returns (), s3)"
    and 4: "UpdateDependencies (SetCell parse n) this ?refs s3 = Some (Returns (), s4)"
    and 5: "InvalidateCacheRecursive fuel True this s4 = Some (Returns u, s')"
    by (auto simp: Cell_Set_unfold bind_Returns)
  note o3 = unlink_Returns(1)[OF 1 2 3] and i3 = unlink_Returns(2)[OF 1 2 3]
    and l3 = unlink_Returns(3)[OF 1 2 3] and c = unlink_Returns(4)[OF 1 2 3]
  note u = UpdateDependencies_Returns[OF 4]
  have f: "forget s' = forget s4"
    using preservesD[OF preserves_forget_InvalidateCacheRecursive 5] .
  have "outgoing s' = (outgoing s)(this := set ?refs)"
    using u(2) by (simp add: forget_eq_outgoing[OF f] o3)
  moreover have "incoming s' = (\<lambda>q. (if q \<in> set ?refs then {this} else {})
           \<union> (incoming s q - (if q \<in> outgoing s this then {this} else {})))"
    using u(3) by (auto simp: forget_eq_incoming[OF f] i3 fun_eq_iff)
  moreover have "deref s' p = None \<longleftrightarrow> p \<notin> set ?refs \<and> deref s p = None" for p
    using u(4)[of p] by (simp add: forget_eq_live[OF f] l3)
  ultimately show ?thesis using that ci wi c by blast
qed

subsection \<open>The cycle check\<close>

lemma closed_rtrancl:
  assumes "(x, y) \<in> R\<^sup>*" and "y \<in> V" and "\<And>a b. (a, b) \<in> R \<Longrightarrow> b \<in> V \<Longrightarrow> a \<in> V"
  shows "x \<in> V"
  using assms by (induction rule: converse_rtrancl_induct) auto

lemma incoming_deref: "deref s p = Some c \<Longrightarrow> incoming s p = set (l_nodes c)"
  by (simp add: incoming_def)

lemma visit_loop_False:
  assumes "visit_loop s referenced visited to_visit = Returns False"
    and "\<forall>v \<in> set visited. Some v \<notin> set referenced \<and> incoming s v \<subseteq> set visited \<union> set to_visit"
    and "(x, y) \<in> {(a, b). a \<in> incoming s b}\<^sup>*"
    and "y \<in> set visited \<union> set to_visit"
  shows "Some x \<notin> set referenced"
  using assms
proof (induction s referenced visited to_visit rule: visit_loop.induct)
  case (1 s referenced visited)
  have "x \<in> set visited"
    using 1(3) _ _
  proof (rule closed_rtrancl)
    show "y \<in> set visited" using 1(4) by simp
    show "\<And>a b. (a, b) \<in> {(a, b). a \<in> incoming s b} \<Longrightarrow> b \<in> set visited \<Longrightarrow> a \<in> set visited"
      using 1(2) by auto
  qed
  then show ?case using 1(2) by auto
next
  case (2 s referenced visited current to_visit)
  from 2(2) have nr: "Some current \<notin> set referenced"
    by (auto split: if_splits)
  from 2(2) nr obtain c where c: "deref s current = Some c"
    by (cases "deref s current") auto
  let ?V = "List.insert current visited"
  let ?T = "rev (filter (\<lambda>incoming. incoming \<notin> set ?V) (l_nodes c)) @ to_visit"
  have r: "visit_loop s referenced ?V ?T = Returns False"
    using 2(2) nr c by simp
  have inv: "\<forall>v \<in> set ?V. Some v \<notin> set referenced \<and> incoming s v \<subseteq> set ?V \<union> set ?T"
    using 2(3) nr incoming_deref[OF c] by auto
  have y: "y \<in> set ?V \<union> set ?T" using 2(5) by auto
  show ?case using "2.IH"[OF nr c r inv 2(4) y] .
qed

lemma visit_loop_defined:
  assumes "\<forall>v \<in> set to_visit. deref s v \<noteq> None"
    and "\<forall>p q. p \<in> incoming s q \<longrightarrow> deref s p \<noteq> None"
  shows "visit_loop s referenced visited to_visit \<noteq> Undefined"
  using assms
proof (induction s referenced visited to_visit rule: visit_loop.induct)
  case (1 s referenced visited)
  then show ?case by simp
next
  case (2 s referenced visited current to_visit)
  show ?case
  proof (cases "Some current \<in> set referenced")
    case True
    then show ?thesis by simp
  next
    case False
    from 2(2) obtain c where c: "deref s current = Some c" by auto
    have "\<forall>v \<in> set (rev (filter (\<lambda>incoming. incoming \<notin> set (List.insert current visited)) (l_nodes c)) @ to_visit).
        deref s v \<noteq> None"
      using 2(2,3) incoming_deref[OF c] by auto
    then show ?thesis using "2.IH"[OF False c _ 2(3)] False c by simp
  qed
qed

lemma WouldIntroduce_False:
  assumes "WouldIntroduceCircularDependency s this new_impl = Returns False"
    and "pos \<in> set (Impl_GetReferencedCells new_impl)" and "deref s pos \<noteq> None"
  shows "(pos, this) \<notin> {(a, b). a \<in> incoming s b}\<^sup>*"
proof
  assume p: "(pos, this) \<in> {(a, b). a \<in> incoming s b}\<^sup>*"
  let ?refs = "Impl_GetReferencedCells new_impl"
  let ?referenced = "map (\<lambda>pos. if deref s pos = None then None else Some pos) ?refs"
  have "referenced_pointers s ?refs = Returns ?referenced"
    using Impl_GetReferencedCells_valid[of _ new_impl] by (intro referenced_pointers_valid) auto
  then have "visit_loop s ?referenced [] [this] = Returns False"
    using assms(1,2) by (auto simp: WouldIntroduceCircularDependency_def simp del: visit_loop.simps split: if_splits)
  from visit_loop_False[OF this _ p] have "Some pos \<notin> set ?referenced" by simp
  then show False using assms(2,3) by (auto simp: image_iff)
qed

lemma WouldIntroduce_defined:
  assumes "deref s this \<noteq> None" and "\<forall>p q. p \<in> incoming s q \<longrightarrow> deref s p \<noteq> None"
  shows "\<exists>b. WouldIntroduceCircularDependency s this new_impl = Returns b"
proof -
  let ?refs = "Impl_GetReferencedCells new_impl"
  let ?referenced = "map (\<lambda>pos. if deref s pos = None then None else Some pos) ?refs"
  have "referenced_pointers s ?refs = Returns ?referenced"
    using Impl_GetReferencedCells_valid[of _ new_impl] by (intro referenced_pointers_valid) auto
  moreover have "visit_loop s ?referenced [] [this] \<noteq> Undefined"
    using assms by (intro visit_loop_defined) auto
  moreover have "visit_loop s ?referenced [] [this] \<noteq> Throws e" for e
    by (rule visit_loop_no_throw)
  ultimately show ?thesis
    by (cases "visit_loop s ?referenced [] [this]")
       (auto simp: WouldIntroduceCircularDependency_def simp del: visit_loop.simps)
qed

subsection \<open>Redirecting the edges of one node\<close>

lemma path_to_source:
  assumes "(a, this) \<in> (E \<union> {this} \<times> R)\<^sup>*"
  shows "(a, this) \<in> E\<^sup>*"
  using assms
proof (induction rule: converse_rtrancl_induct)
  case base
  show ?case by simp
next
  case (step a b)
  then show ?case by (auto intro: converse_rtrancl_into_rtrancl)
qed

lemma acyclic_redirect:
  assumes "acyclic E" and "\<forall>r \<in> set refs. (r, this) \<notin> E\<^sup>*"
  shows "acyclic ({(c, d). (c, d) \<in> E \<and> c \<noteq> this} \<union> {this} \<times> set refs)"
  using assms(2)
proof (induction refs)
  case Nil
  show ?case using assms(1) by (auto intro: acyclic_subset)
next
  case (Cons r refs)
  let ?E0 = "{(c, d). (c, d) \<in> E \<and> c \<noteq> this}"
  have "(r, this) \<notin> (?E0 \<union> {this} \<times> set refs)\<^sup>*"
  proof
    assume "(r, this) \<in> (?E0 \<union> {this} \<times> set refs)\<^sup>*"
    then have "(r, this) \<in> ?E0\<^sup>*" by (rule path_to_source)
    moreover have "?E0\<^sup>* \<subseteq> E\<^sup>*" by (rule rtrancl_mono) auto
    ultimately show False using Cons.prems by auto
  qed
  moreover have "acyclic (?E0 \<union> {this} \<times> set refs)" using Cons by simp
  moreover have "?E0 \<union> {this} \<times> set (r # refs) = insert (this, r) (?E0 \<union> {this} \<times> set refs)"
    by auto
  ultimately show ?case by (simp only: acyclic_insert) simp
qed

subsection \<open>The invariant is kept\<close>

lemma mirror_incoming_edges: "edge_mirror s \<Longrightarrow> {(a, b). a \<in> incoming s b} = edges s"
  by (auto simp: edge_mirror_def edges_def)

lemma mirror_no_dangling: "edge_mirror s \<Longrightarrow> p \<in> incoming s q \<Longrightarrow> deref s p \<noteq> None"
  by (auto simp: edge_mirror_def outgoing_def split: option.splits)

lemma dead_no_path:
  assumes "deref s r = None" and "(r, this) \<in> (edges s)\<^sup>*"
  shows "r = this"
  using assms(2,1)
  by (induction rule: converse_rtrancl_induct) (auto simp: edges_def outgoing_def)

lemma invariant_same_graph:
  assumes "outgoing s' = outgoing s" and "incoming s' = incoming s" and "sheet_invariant s"
  shows "sheet_invariant s'"
proof -
  have "edges s' = edges s" by (simp only: edges_def assms(1))
  moreover have "edge_mirror s' = edge_mirror s" by (simp only: edge_mirror_def assms(1,2))
  ultimately show ?thesis using assms(3) by (simp only: sheet_invariant_def)
qed

lemma invariant_Cell_Set:
  assumes "sheet_invariant s"
    and "Cell_Set (SetCell parse n) parse fuel this t s = Some (r, s')" and "r \<noteq> Undefined"
  shows "sheet_invariant s'"
proof (cases r)
  case (Returns u)
  from assms(2)[unfolded Returns] obtain new_impl where
    wi: "WouldIntroduceCircularDependency s this new_impl = Returns False"
    and o: "outgoing s' = (outgoing s)(this := set (Impl_GetReferencedCells new_impl))"
    and i: "incoming s' = (\<lambda>q. (if q \<in> set (Impl_GetReferencedCells new_impl) then {this} else {})
           \<union> (incoming s q - (if q \<in> outgoing s this then {this} else {})))"
    and live: "deref s this \<noteq> None"
    by (rule Cell_Set_Returns)
  let ?refs = "Impl_GetReferencedCells new_impl"
  have m: "edge_mirror s" and a: "acyclic (edges s)"
    using assms(1) by (simp_all add: sheet_invariant_def)
  have m': "edge_mirror s'"
    using m unfolding edge_mirror_def o i by auto
  have "(q, this) \<notin> (edges s)\<^sup>*" if "q \<in> set ?refs" for q
  proof (cases "deref s q = None")
    case True
    then show ?thesis using dead_no_path[of s q this] live by auto
  next
    case False
    then show ?thesis
      using WouldIntroduce_False[OF wi that] mirror_incoming_edges[OF m] by simp
  qed
  then have "acyclic ({(c, d). (c, d) \<in> edges s \<and> c \<noteq> this} \<union> {this} \<times> set ?refs)"
    using a by (intro acyclic_redirect) auto
  moreover have "edges s' = {(c, d). (c, d) \<in> edges s \<and> c \<noteq> this} \<union> {this} \<times> set ?refs"
    unfolding edges_def o by (auto split: if_splits)
  ultimately show ?thesis using m' by (simp add: sheet_invariant_def)
next
  case (Throws e)
  then show ?thesis using Cell_Set_Throws(1)[of parse n fuel this t s e s'] assms by simp
next
  case Undefined
  then show ?thesis using assms(3) by simp
qed

lemma invariant_SetCell:
  assumes "sheet_invariant s" and "SetCell parse fuel pos t s = Some (r, s')" and "r \<noteq> Undefined"
  shows "sheet_invariant s'"
proof (cases fuel)
  case 0
  then show ?thesis using assms by simp
next
  case (Suc n)
  show ?thesis
  proof (cases "IsValid pos")
    case False
    then show ?thesis using assms Suc by simp
  next
    case True
    define s0 where "s0 = (case map_of s pos of None \<Rightarrow> s @ [(pos, Some new_Cell)] | Some entry \<Rightarrow> s)"
    have "sheet_invariant s0"
      using assms(1)
      by (auto simp: s0_def outgoing_append_new_Cell incoming_append_new_Cell
          intro: invariant_same_graph split: option.splits)
    moreover have "Cell_Set (SetCell parse n) parse n pos t s0 = Some (r, s')"
      using assms(2,3) Suc True
      by (cases "deref s0 pos") (auto simp: s0_def Let_def)
    ultimately show ?thesis using assms(3) by (rule invariant_Cell_Set)
  qed
qed

lemma invariant_ClearCell:
  assumes "sheet_invariant s" and "ClearCell parse fuel pos s = Some (r, s')" and "r \<noteq> Undefined"
  shows "sheet_invariant s'"
proof (cases "IsValid pos \<and> deref s pos \<noteq> None")
  case False
  then have "s' = s" using assms(2)
    by (auto simp: ClearCell_def deref_def split: if_splits option.splits)
  then show ?thesis using assms(1) by simp
next
  case True
  then obtain c where c: "map_of s pos = Some (Some c)" by (auto simp: deref_def split: option.splits)
  show ?thesis
  proof (cases "Cell_Set (SetCell parse fuel) parse fuel pos [] s")
    case None
    then show ?thesis using assms(2) True c by (simp add: ClearCell_def bind_def)
  next
    case (Some x)
    obtain r1 s1 where x: "x = (r1, s1)" by (cases x)
    show ?thesis
    proof (cases r1)
      case (Returns u)
      have inv1: "sheet_invariant s1"
        using invariant_Cell_Set[OF assms(1) Some[unfolded x]] Returns by simp
      from Some[unfolded x Returns] obtain new_impl where
        "CreateImpl parse [] = Returns new_impl"
        and o: "outgoing s1 = (outgoing s)(pos := set (Impl_GetReferencedCells new_impl))"
        by (rule Cell_Set_Returns)
      then have o1: "outgoing s1 pos = {}"
        by (simp add: CreateImpl_empty Impl_GetReferencedCells_def)
      show ?thesis
      proof (cases "deref s1 pos")
        case None
        then show ?thesis using assms(2,3) True c Some x Returns
          by (simp add: ClearCell_def bind_def)
      next
        case (Some c')
        show ?thesis
        proof (cases "IsReferenced c'")
          case True
          then have "s' = s1" using assms(2) \<open>IsValid pos \<and> deref s pos \<noteq> None\<close> c
              \<open>Cell_Set (SetCell parse fuel) parse fuel pos [] s = Some x\<close> x Returns Some
            by (simp add: ClearCell_def bind_def)
          then show ?thesis using inv1 by simp
        next
          case False
          then have s': "s' = AList.update pos None s1" using assms(2) \<open>IsValid pos \<and> deref s pos \<noteq> None\<close> c
              \<open>Cell_Set (SetCell parse fuel) parse fuel pos [] s = Some x\<close> x Returns Some
            by (simp add: ClearCell_def bind_def)
          have "incoming s1 pos = {}" using False Some by (simp add: incoming_def IsReferenced_def)
          then have "outgoing s' = outgoing s1" "incoming s' = incoming s1"
            using o1 by (auto simp: s' fun_eq_iff outgoing_update incoming_update)
          then show ?thesis using inv1 by (rule invariant_same_graph)
        qed
      qed
    next
      case (Throws e)
      then have "s1 = s" using Cell_Set_Throws(1)[of parse fuel fuel pos "[]" s e s1] Some x by simp
      moreover have "s' = s1" using assms(2) True c Some x Throws by (simp add: ClearCell_def bind_def)
      ultimately show ?thesis using assms(1) by simp
    next
      case Undefined
      then show ?thesis using assms(2,3) True c Some x by (simp add: ClearCell_def bind_def)
    qed
  qed
qed

subsection \<open>Evaluation changes the caches only\<close>

lemma preserves_set_cache: "preserves (\<lambda>st. forget (fst st)) (set_cache p v)"
  by (auto simp: preserves_def set_cache_def forget_update forget_cell_def Impl_InvalidateCache_def
      split: option.splits Impl.splits)

lemma preserves_Execute:
  "(\<And>p. preserves h (args p)) \<Longrightarrow> preserves h (FormulaAST_Execute run args)"
  by (induction run) (auto intro: preserves_return preserves_throw preserves_bind)

lemma preserves_Formula_Evaluate:
  assumes "\<And>p. preserves (\<lambda>st. forget (fst st)) (args p)"
  shows "preserves (\<lambda>st. forget (fst st)) (Formula_Evaluate args ast)"
  using preservesD[OF preserves_Execute[of "\<lambda>st. forget (fst st)" args "Execute ast", OF assms]]
  by (auto simp: preserves_def Formula_Evaluate_def split: option.splits prod.splits)

lemma preserves_EvaluateCell:
  assumes "\<And>c. preserves h (getValue c)"
  shows "preserves h (EvaluateCell getValue read p)"
proof -
  have "preserves h (bind (getValue cell) (\<lambda>v1.
                    if holds_double v1 then
                      bind (getValue cell) (\<lambda>v2. lift (get_double v2))
                    else
                      bind (getValue cell) (\<lambda>v2.
                        if holds_string v2 then
                          bind (getValue cell) (\<lambda>v3.
                            (case get_string v3 of
                               Returns str \<Rightarrow> lift (ConvertStringToDouble read str)
                             | Throws e \<Rightarrow> throw e
                             | Undefined \<Rightarrow> undefined_behaviour))
                        else
                          bind (getValue cell) (\<lambda>v3.
                            (case get_FormulaError v3 of
                               Returns e \<Rightarrow> throw (Thrown e)
                             | Throws e \<Rightarrow> throw e
                             | Undefined \<Rightarrow> undefined_behaviour)))))" for cell
    by (intro preserves_bind assms)
       (auto intro!: preserves_bind assms preserves_lift preserves_throw preserves_undefined
          split: outcome.splits)
  then show ?thesis
    unfolding preserves_def EvaluateCell_def
    by (auto split: if_splits outcome.splits option.splits)
qed

lemma preserves_FormulaImpl_GetValue:
  assumes "\<And>p. preserves (\<lambda>st. forget (fst st)) (args p)"
  shows "preserves (\<lambda>st. forget (fst st)) (FormulaImpl_GetValue args p ast cache)"
  unfolding FormulaImpl_GetValue_def
  by (intro preserves_bind preserves_return preserves_Formula_Evaluate assms)
     (auto intro!: preserves_bind preserves_return preserves_Formula_Evaluate assms preserves_set_cache)

lemma preserves_Cell_GetValue:
  "preserves (\<lambda>st. forget (fst st)) (Cell_GetValue read fuel p)"
proof (induction fuel arbitrary: p)
  case 0
  show ?case by (simp add: preserves_def)
next
  case (Suc fuel)
  have "preserves (\<lambda>st. forget (fst st))
          (Impl_GetValue (EvaluateCell (Cell_GetValue read fuel) read) p body)" for body
    by (cases body)
       (auto simp: Impl_GetValue_def intro!: preserves_return preserves_FormulaImpl_GetValue
          preserves_EvaluateCell Suc)
  then show ?case
    unfolding preserves_def by (auto split: option.splits)
qed

lemma invariant_forget: "forget s' = forget s \<Longrightarrow> sheet_invariant s \<Longrightarrow> sheet_invariant s'"
  using forget_eq_outgoing forget_eq_incoming invariant_same_graph by blast

lemma reachable_invariant: "reachable parse read s \<Longrightarrow> sheet_invariant s"
proof (induction rule: reachable.induct)
  case reachable_CreateSheet
  show ?case
    by (simp add: sheet_invariant_def edge_mirror_def edges_def outgoing_def incoming_def
        deref_def CreateSheet_def acyclic_def)
next
  case (reachable_SetCell s fuel pos t r s')
  then show ?case using invariant_SetCell by blast
next
  case (reachable_ClearCell s fuel pos r s')
  then show ?case using invariant_ClearCell by blast
next
  case (reachable_GetValue s pos cell fuel calls r s' calls')
  have "forget s' = forget s"
    using preservesD[OF preserves_Cell_GetValue reachable_GetValue(3)] by simp
  then show ?case using reachable_GetValue.IH by (rule invariant_forget)
qed

subsection \<open>A cycle is refused\<close>

lemma SetCell_cycle_raises:
  assumes inv: "sheet_invariant s" and v: "IsValid pos" and e: "map_of s pos \<noteq> Some None"
    and ci: "CreateImpl parse t = Returns new_impl"
    and cyc: "\<not> acyclic ({(c, d). (c, d) \<in> edges s \<and> c \<noteq> pos}
                 \<union> {pos} \<times> set (Impl_GetReferencedCells new_impl))"
  shows "SetCell parse (Suc n) pos t s =
     Some (Throws CircularDependencyException,
           if map_of s pos = None then s @ [(pos, Some new_Cell)] else s)"
proof -
  define s0 where "s0 = (if map_of s pos = None then s @ [(pos, Some new_Cell)] else s)"
  have live: "deref s0 pos \<noteq> None"
    using e by (cases "map_of s pos") (auto simp: s0_def deref_append deref_def split: option.splits)
  have og: "outgoing s0 = outgoing s" and ig: "incoming s0 = incoming s"
    by (auto simp: s0_def outgoing_append_new_Cell incoming_append_new_Cell)
  have inv0: "sheet_invariant s0" using og ig inv by (rule invariant_same_graph)
  then have m: "edge_mirror s0" and a: "acyclic (edges s0)" by (simp_all add: sheet_invariant_def)
  have eg: "edges s0 = edges s" by (simp add: edges_def og)
  from cyc a obtain q where q: "q \<in> set (Impl_GetReferencedCells new_impl)"
    and path: "(q, pos) \<in> (edges s0)\<^sup>*"
    using acyclic_redirect[of "edges s0" "Impl_GetReferencedCells new_impl" pos] eg by auto
  have ql: "deref s0 q \<noteq> None" using dead_no_path[OF _ path] live by auto
  obtain b where b: "WouldIntroduceCircularDependency s0 pos new_impl = Returns b"
    using WouldIntroduce_defined[OF live] mirror_no_dangling[OF m] by blast
  have "b"
  proof (rule ccontr)
    assume "\<not> b"
    then have "(q, pos) \<notin> {(a, b). a \<in> incoming s0 b}\<^sup>*"
      using WouldIntroduce_False[OF _ q ql] b by simp
    then show False using path mirror_incoming_edges[OF m] by simp
  qed
  then have "Cell_Set (SetCell parse n) parse n pos t s0 = Some (Throws CircularDependencyException, s0)"
    using ci b by (simp add: Cell_Set_unfold)
  then show ?thesis
    using v live unfolding s0_def
    by (cases "map_of s pos") (auto simp: Let_def split: option.splits)
qed

subsection \<open>The sheet of the scenarios\<close>

lemma SetCell_A1_reads_B1:
  "SetCell scenario_parse 3 A1 ''=B1'' CreateSheet = Some (Returns (), sheet_A1_reads_B1)"
  by (simp add: numeral_3_eq_3 bind_def CreateSheet_def IsValid_A1 IsValid_B1 deref_def Cell_Set_def
      CreateImpl_def new_FormulaImpl_def ParseFormula_def scenario_parse_def reference_ast_def
      FORMULA_SIGN_def WouldIntroduceCircularDependency_def Formula_GetReferencedCells_def
      Impl_GetReferencedCells_def modify_cell_def UpdateDependencies_def UpdateDependencies_body_def
      return_def new_Cell_def GetCellPtr_def A1_neq_B1
      Impl_IsCacheValid_def Impl_InvalidateCache_def sheet_A1_reads_B1_def)

lemma reachable_A1_reads_B1: "reachable scenario_parse scenario_extract sheet_A1_reads_B1"
  using reachable_SetCell[OF reachable_CreateSheet SetCell_A1_reads_B1] by simp

subsection \<open>A call of SetCell that throws\<close>

lemma GetPrintableSize_append_new_Cell:
  "GetPrintableSize (s @ [(pos, Some new_Cell)]) = GetPrintableSize s"
  by (simp add: GetPrintableSize_def new_Cell_def Impl_GetText_def)

lemma SetCell_Throws:
  assumes "SetCell parse fuel pos t s = Some (Throws e, s')"
  shows "(e = InvalidPositionException \<and> \<not> IsValid pos \<and> s' = s)
       \<or> ((e = FormulaException \<or> e = CircularDependencyException) \<and> IsValid pos
           \<and> map_of s pos \<noteq> Some None
           \<and> s' = (if map_of s pos = None then s @ [(pos, Some new_Cell)] else s))"
proof (cases fuel)
  case 0
  then show ?thesis using assms by simp
next
  case (Suc n)
  show ?thesis
  proof (cases "IsValid pos")
    case False
    then show ?thesis using assms Suc by simp
  next
    case True
    define s0 where "s0 = (if map_of s pos = None then s @ [(pos, Some new_Cell)] else s)"
    have s0: "(case map_of s pos of None \<Rightarrow> s @ [(pos, Some new_Cell)] | Some entry \<Rightarrow> s) = s0"
      by (simp add: s0_def split: option.splits)
    show ?thesis
    proof (cases "deref s0 pos")
      case None
      then show ?thesis using assms Suc True s0 by simp
    next
      case (Some c)
      then have "Cell_Set (SetCell parse n) parse n pos t s0 = Some (Throws e, s')"
        using assms Suc True s0 by simp
      from Cell_Set_Throws[OF this] have "s' = s0"
        and "e = FormulaException \<or> e = CircularDependencyException" by auto
      moreover have "map_of s pos \<noteq> Some None"
        using Some by (auto simp: s0_def deref_def split: if_splits)
      ultimately show ?thesis using True by (simp add: s0_def)
    qed
  qed
qed

subsection \<open>Scenario 7\<close>

lemma AAA1_neq_ZZ9999: "AAA1 \<noteq> ZZ9999" "ZZ9999 \<noteq> AAA1"
  by (simp_all add: AAA1_def ZZ9999_def)

subsection \<open>The value of a cell does not depend on the caches\<close>

lemma cache_blindD:
  "cache_blind m \<Longrightarrow> forget (fst st) = forget (fst st') \<Longrightarrow> map_option fst (m st) = map_option fst (m st')"
  unfolding cache_blind_def by blast

lemma cache_blind_return: "cache_blind (return a)"
  by (simp add: cache_blind_def return_def)

lemma cache_blind_throw: "cache_blind (throw e)"
  by (simp add: cache_blind_def throw_def)

lemma cache_blind_lift: "cache_blind (lift r)"
  by (simp add: cache_blind_def lift_def)

lemma cache_blind_undefined: "cache_blind undefined_behaviour"
  by (simp add: cache_blind_def undefined_behaviour_def)

lemma cache_blind_bind:
  assumes m: "cache_blind (m :: ('a, 'd EvalState) comp)" and p: "preserves (\<lambda>st. forget (fst st)) m"
    and f: "\<And>a. cache_blind (f a)"
  shows "cache_blind (bind m f)"
  unfolding cache_blind_def
proof (intro allI impI)
  fix st st' :: "'d EvalState"
  assume eq: "forget (fst st) = forget (fst st')"
  have mm: "map_option fst (m st) = map_option fst (m st')" using m eq by (rule cache_blindD)
  show "map_option fst (bind m f st) = map_option fst (bind m f st')"
  proof (cases "m st")
    case None
    then have "m st' = None" using mm by simp
    then show ?thesis using None by (simp add: bind_def)
  next
    case (Some x)
    obtain r t where x: "x = (r, t)" by (cases x)
    from mm Some x obtain t' where s': "m st' = Some (r, t')" by (cases "m st'") auto
    have "forget (fst t) = forget (fst st)" using preservesD[OF p Some[unfolded x]] .
    moreover have "forget (fst t') = forget (fst st')" using preservesD[OF p s'] .
    ultimately have "forget (fst t) = forget (fst t')" using eq by simp
    then show ?thesis
      using Some x s' cache_blindD[OF f, of t t']
      by (cases r) (simp_all add: bind_def)
  qed
qed

lemma cache_blind_Execute:
  assumes "\<And>p. cache_blind (args p)" and "\<And>p. preserves (\<lambda>st. forget (fst st)) (args p)"
  shows "cache_blind (FormulaAST_Execute run args)"
  by (induction run)
     (auto intro: cache_blind_return cache_blind_throw cache_blind_bind assms)

lemma Formula_Evaluate_outcome:
  "map_option fst (Formula_Evaluate args ast st)
   = map_option catch_FormulaError
       (map_option fst (FormulaAST_Execute (Execute ast) args (fst st, Suc (snd st))))"
  by (cases st) (auto simp: Formula_Evaluate_def split: option.splits)

lemma cache_blind_Formula_Evaluate:
  assumes "\<And>p. cache_blind (args p)" and "\<And>p. preserves (\<lambda>st. forget (fst st)) (args p)"
  shows "cache_blind (Formula_Evaluate args (ast :: 'd FormulaAST))"
  unfolding cache_blind_def
proof (intro allI impI)
  fix st st' :: "'d EvalState"
  assume eq: "forget (fst st) = forget (fst st')"
  have "map_option fst (FormulaAST_Execute (Execute ast) args (fst st, Suc (snd st)))
      = map_option fst (FormulaAST_Execute (Execute ast) args (fst st', Suc (snd st')))"
    using cache_blind_Execute[OF assms] eq by (intro cache_blindD) auto
  then show "map_option fst (Formula_Evaluate args ast st) = map_option fst (Formula_Evaluate args ast st')"
    by (simp only: Formula_Evaluate_outcome)
qed

lemma cache_blind_set_cache: "cache_blind (set_cache p v)"
  by (auto simp: cache_blind_def set_cache_def)

text \<open>
  The outcome of \<^verbatim>\<open>FormulaImpl::GetValue\<close> is that of one evaluation, whatever the cache.
\<close>

lemma FormulaImpl_GetValue_outcome:
  assumes b: "\<And>p. cache_blind (args p)" and pr: "\<And>p. preserves (\<lambda>st. forget (fst st)) (args p)"
  shows "map_option fst (FormulaImpl_GetValue args p ast cache st)
       = map_option fst
           (bind (Formula_Evaluate args ast)
              (\<lambda>v. return (case v of FDouble d \<Rightarrow> VDouble d | FError e \<Rightarrow> VError e)) st)"
proof (cases cache)
  case (Some v)
  then show ?thesis by (simp add: FormulaImpl_GetValue_def bind_def return_def)
next
  case None
  let ?k = "\<lambda>v. return (case v of FDouble d \<Rightarrow> VDouble d | FError e \<Rightarrow> VError e)"
  let ?E = "Formula_Evaluate args ast"
  have bE: "cache_blind ?E" using b pr by (rule cache_blind_Formula_Evaluate)
  have pE: "preserves (\<lambda>st. forget (fst st)) ?E" using pr by (rule preserves_Formula_Evaluate)
  have bk: "cache_blind (bind ?E ?k)"
    by (intro cache_blind_bind bE pE cache_blind_return)
  show ?thesis
  proof (cases "?E st")
    case None
    then show ?thesis using \<open>cache = None\<close> by (simp add: FormulaImpl_GetValue_def bind_def)
  next
    case (Some x)
    obtain r t where x: "x = (r, t)" by (cases x)
    show ?thesis
    proof (cases r)
      case (Returns v)
      obtain t1 where t1: "set_cache p v t = Some (Returns (), t1)"
        by (cases t) (simp add: set_cache_def)
      have "forget (fst t1) = forget (fst t)"
        using preservesD[OF preserves_set_cache t1] .
      moreover have "forget (fst t) = forget (fst st)"
        using preservesD[OF pE Some[unfolded x]] .
      ultimately have "map_option fst (bind ?E ?k t1) = map_option fst (bind ?E ?k st)"
        using bk by (intro cache_blindD) auto
      moreover have "FormulaImpl_GetValue args p ast cache st = bind ?E ?k t1"
        using \<open>cache = None\<close> Some x Returns t1 by (simp add: FormulaImpl_GetValue_def bind_def)
      ultimately show ?thesis by simp
    next
      case (Throws e)
      then show ?thesis using \<open>cache = None\<close> Some x by (simp add: FormulaImpl_GetValue_def bind_def)
    next
      case Undefined
      then show ?thesis using \<open>cache = None\<close> Some x by (simp add: FormulaImpl_GetValue_def bind_def)
    qed
  qed
qed


lemma cache_blind_Impl_GetValue:
  assumes b: "\<And>p. cache_blind (args p)" and pr: "\<And>p. preserves (\<lambda>st. forget (fst st)) (args p)"
    and eq: "forget (fst st) = forget (fst st')"
    and i: "Impl_InvalidateCache body = Impl_InvalidateCache body'"
  shows "map_option fst (Impl_GetValue args p body st) = map_option fst (Impl_GetValue args p body' st')"
proof (cases body)
  case EmptyImpl
  then have "body' = EmptyImpl" using i by (cases body') (simp_all add: Impl_InvalidateCache_def)
  then show ?thesis using EmptyImpl by (simp add: Impl_GetValue_def return_def)
next
  case (TextImpl x)
  then have "body' = TextImpl x" using i by (cases body') (simp_all add: Impl_InvalidateCache_def)
  then show ?thesis using TextImpl by (simp add: Impl_GetValue_def return_def)
next
  case (FormulaImpl ast cache)
  then obtain cache' where b': "body' = FormulaImpl ast cache'"
    using i by (cases body') (simp_all add: Impl_InvalidateCache_def)
  let ?k = "\<lambda>v. return (case v of FDouble d \<Rightarrow> VDouble d | FError e \<Rightarrow> VError e)"
  have "cache_blind (bind (Formula_Evaluate args ast) ?k)"
    by (intro cache_blind_bind cache_blind_Formula_Evaluate preserves_Formula_Evaluate
        cache_blind_return b pr)
  from cache_blindD[OF this eq] show ?thesis
    using FormulaImpl b' FormulaImpl_GetValue_outcome[OF b pr]
    by (simp add: Impl_GetValue_def)
qed

lemma cache_blind_EvaluateCell:
  assumes b: "\<And>c. cache_blind (getValue c)" and pr: "\<And>c. preserves (\<lambda>st. forget (fst st)) (getValue c)"
  shows "cache_blind (EvaluateCell getValue read p)"
  unfolding cache_blind_def
proof (intro allI impI)
  fix st st' :: "'a EvalState"
  assume eq: "forget (fst st) = forget (fst st')"
  let ?B = "\<lambda>cell. bind (getValue cell) (\<lambda>v1.
                    if holds_double v1 then
                      bind (getValue cell) (\<lambda>v2. lift (get_double v2))
                    else
                      bind (getValue cell) (\<lambda>v2.
                        if holds_string v2 then
                          bind (getValue cell) (\<lambda>v3.
                            (case get_string v3 of
                               Returns str \<Rightarrow> lift (ConvertStringToDouble read str)
                             | Throws e \<Rightarrow> throw e
                             | Undefined \<Rightarrow> undefined_behaviour))
                        else
                          bind (getValue cell) (\<lambda>v3.
                            (case get_FormulaError v3 of
                               Returns e \<Rightarrow> throw (Thrown e)
                             | Throws e \<Rightarrow> throw e
                             | Undefined \<Rightarrow> undefined_behaviour))))"
  have B: "cache_blind (?B cell)" for cell
    by (intro cache_blind_bind b pr)
       (auto intro!: cache_blind_bind b pr cache_blind_lift cache_blind_throw cache_blind_undefined
          split: outcome.splits)
  have g: "GetCell (fst st) p = GetCell (fst st') p"
    using forget_eq_live[OF eq, of p] by (auto simp: GetCell_def GetCellPtr_eq)
  show "map_option fst (EvaluateCell getValue read p st) = map_option fst (EvaluateCell getValue read p st')"
    using cache_blindD[OF B eq] g
    by (auto simp: EvaluateCell_def split: outcome.splits option.splits)
qed

lemma forget_eq_impl:
  assumes "forget s = forget s'" and "deref s p = Some c"
  obtains c' where "deref s' p = Some c'" and "Impl_InvalidateCache (impl c) = Impl_InvalidateCache (impl c')"
proof -
  have "map_option forget_cell (deref s p) = map_option forget_cell (deref s' p)"
    using assms(1) by (metis deref_forget)
  then obtain c' where c': "deref s' p = Some c'" and "forget_cell c = forget_cell c'"
    using assms(2) by (cases "deref s' p") auto
  then have "Impl_InvalidateCache (impl c) = Impl_InvalidateCache (impl c')"
    by (metis Cell.select_convs(1) Cell.surjective Cell.update_convs(1) forget_cell_def)
  then show ?thesis using that c' by blast
qed

lemma cache_blind_Cell_GetValue: "cache_blind (Cell_GetValue read fuel p)"
proof (induction fuel arbitrary: p)
  case 0
  show ?case by (simp add: cache_blind_def)
next
  case (Suc fuel)
  show ?case
    unfolding cache_blind_def
  proof (intro allI impI)
    fix st st' :: "'a EvalState"
    assume eq: "forget (fst st) = forget (fst st')"
    let ?args = "EvaluateCell (Cell_GetValue read fuel) read"
    have b: "cache_blind (?args q)" for q
      by (intro cache_blind_EvaluateCell Suc preserves_Cell_GetValue)
    have pr: "preserves (\<lambda>st. forget (fst st)) (?args q)" for q
      by (intro preserves_EvaluateCell preserves_Cell_GetValue)
    show "map_option fst (Cell_GetValue read (Suc fuel) p st)
        = map_option fst (Cell_GetValue read (Suc fuel) p st')"
    proof (cases "deref (fst st) p")
      case None
      then have "deref (fst st') p = None" using forget_eq_live[OF eq, of p] by simp
      then show ?thesis using None by simp
    next
      case (Some c)
      from forget_eq_impl[OF eq Some] obtain c' where c': "deref (fst st') p = Some c'"
        and i: "Impl_InvalidateCache (impl c) = Impl_InvalidateCache (impl c')" by blast
      show ?thesis
        using cache_blind_Impl_GetValue[of ?args st st' "impl c" "impl c'" p, OF b pr eq i] Some c'
        by simp
    qed
  qed
qed

subsection \<open>Formula::EvaluateCell\<close>

lemma Cell_GetValue_again:
  assumes "Cell_GetValue read fuel p st = Some (Returns v, st1)"
  shows "forget (fst st1) = forget (fst st)"
    and "\<exists>st2. Cell_GetValue read fuel p st1 = Some (Returns v, st2)"
proof -
  show eq: "forget (fst st1) = forget (fst st)"
    using preservesD[OF preserves_Cell_GetValue assms] .
  have "map_option fst (Cell_GetValue read fuel p st1) = map_option fst (Cell_GetValue read fuel p st)"
    using cache_blind_Cell_GetValue eq by (rule cache_blindD)
  then show "\<exists>st2. Cell_GetValue read fuel p st1 = Some (Returns v, st2)"
    using assms by (cases "Cell_GetValue read fuel p st1") auto
qed

lemma EvaluateCell_live:
  assumes v: "IsValid p" and l: "deref (fst st) p \<noteq> None"
    and g: "Cell_GetValue read fuel p st = Some (Returns v, st1)"
  shows "\<exists>st'. EvaluateCell (Cell_GetValue read fuel) read p st
           = Some ((case v of
                      VDouble d \<Rightarrow> Returns d
                    | VString str \<Rightarrow> ConvertStringToDouble read str
                    | VError e \<Rightarrow> Throws (Thrown e)), st')
         \<and> forget (fst st') = forget (fst st)"
proof -
  from Cell_GetValue_again[OF g] obtain st2 where e1: "forget (fst st1) = forget (fst st)"
    and g2: "Cell_GetValue read fuel p st1 = Some (Returns v, st2)" by blast
  from Cell_GetValue_again[OF g2] obtain st3 where e2: "forget (fst st2) = forget (fst st1)"
    and g3: "Cell_GetValue read fuel p st2 = Some (Returns v, st3)" by blast
  have e3: "forget (fst st3) = forget (fst st2)" using Cell_GetValue_again(1)[OF g3] .
  have c: "GetCell (fst st) p = Returns (Some p)" using v l by (simp add: GetCell_def GetCellPtr_eq)
  show ?thesis
  proof (cases v)
    case (VString str)
    then have "EvaluateCell (Cell_GetValue read fuel) read p st = Some (ConvertStringToDouble read str, st3)"
      using v c g g2 g3 by (simp add: EvaluateCell_def bind_def lift_def)
    then show ?thesis using VString e1 e2 e3 by simp
  next
    case (VDouble d)
    then have "EvaluateCell (Cell_GetValue read fuel) read p st = Some (Returns d, st2)"
      using v c g g2 by (simp add: EvaluateCell_def bind_def lift_def)
    then show ?thesis using VDouble e1 e2 by simp
  next
    case (VError e)
    then have "EvaluateCell (Cell_GetValue read fuel) read p st = Some (Throws (Thrown e), st3)"
      using v c g g2 g3 by (simp add: EvaluateCell_def bind_def throw_def)
    then show ?thesis using VError e1 e2 e3 by simp
  qed
qed

subsection \<open>No exception leaves GetValue\<close>

lemma EvaluateCell_throws_FormulaError:
  assumes nt: "\<And>c st e st'. Cell_GetValue read fuel c st \<noteq> Some (Throws e, st')"
    and t: "EvaluateCell (Cell_GetValue read fuel) read p st = Some (Throws e, st')"
  shows "\<exists>fe. e = Thrown fe"
proof (cases "IsValid p")
  case False
  then show ?thesis using t by (auto simp: EvaluateCell_def)
next
  case True
  show ?thesis
  proof (cases "deref (fst st) p = None")
    case True
    then show ?thesis using t \<open>IsValid p\<close> by (auto simp: EvaluateCell_def GetCell_def GetCellPtr_eq)
  next
    case False
    show ?thesis
    proof (cases "Cell_GetValue read fuel p st")
      case None
      then show ?thesis using t \<open>IsValid p\<close> False
        by (auto simp: EvaluateCell_def GetCell_def GetCellPtr_eq bind_def)
    next
      case (Some x)
      obtain r st1 where x: "x = (r, st1)" by (cases x)
      show ?thesis
      proof (cases r)
        case (Returns v)
        from EvaluateCell_live[OF \<open>IsValid p\<close> False Some[unfolded x Returns]] t
        have "Throws e = (case v of
                      VDouble d \<Rightarrow> Returns d
                    | VString str \<Rightarrow> ConvertStringToDouble read str
                    | VError e \<Rightarrow> Throws (Thrown e))" by auto
        then show ?thesis
          by (cases v) (auto simp: ConvertStringToDouble_def split: if_splits option.splits)
      next
        case (Throws y)
        then show ?thesis using nt Some x by blast
      next
        case Undefined
        then show ?thesis using t \<open>IsValid p\<close> False Some x
          by (auto simp: EvaluateCell_def GetCell_def GetCellPtr_eq bind_def)
      qed
    qed
  qed
qed

lemma Execute_throws_FormulaError:
  assumes "\<And>p st e st'. args p st = Some (Throws e, st') \<Longrightarrow> \<exists>fe. e = Thrown fe"
  shows "FormulaAST_Execute run args st = Some (Throws e, st') \<Longrightarrow> \<exists>fe. e = Thrown fe"
proof (induction run arbitrary: st)
  case (Yield d)
  then show ?case by (simp add: return_def)
next
  case (Fail x)
  then show ?case by (auto simp: throw_def)
next
  case (Lookup p k)
  show ?case
  proof (cases "args p st")
    case None
    then show ?thesis using Lookup.prems by (simp add: bind_def)
  next
    case (Some x)
    obtain r st1 where x: "x = (r, st1)" by (cases x)
    show ?thesis
    proof (cases r)
      case (Returns d)
      then have "FormulaAST_Execute (k d) args st1 = Some (Throws e, st')"
        using Lookup.prems Some x by (simp add: bind_def)
      then show ?thesis using Lookup.IH by blast
    next
      case (Throws y)
      then show ?thesis using Lookup.prems Some x assms[of p st y st1] by (simp add: bind_def)
    next
      case Undefined
      then show ?thesis using Lookup.prems Some x by (simp add: bind_def)
    qed
  qed
qed

lemma Formula_Evaluate_no_throw:
  assumes "\<And>p st e st'. args p st = Some (Throws e, st') \<Longrightarrow> \<exists>fe. e = Thrown fe"
  shows "Formula_Evaluate args ast st \<noteq> Some (Throws e, st')"
proof
  assume a: "Formula_Evaluate args ast st = Some (Throws e, st')"
  then obtain r where r: "FormulaAST_Execute (Execute ast) args (fst st, Suc (snd st)) = Some (r, st')"
    and c: "catch_FormulaError r = Throws e"
    by (cases st) (auto simp: Formula_Evaluate_def split: option.splits)
  from c obtain y where y: "r = Throws y" by (cases r rule: catch_FormulaError.cases) auto
  have "\<exists>fe. y = Thrown fe"
    by (rule Execute_throws_FormulaError[rotated, OF r[unfolded y]]) (erule assms)
  then show False using c y by auto
qed

lemma Cell_GetValue_no_throw: "Cell_GetValue read fuel p st \<noteq> Some (Throws e, st')"
proof (induction fuel arbitrary: p st e st')
  case 0
  show ?case by simp
next
  case (Suc fuel)
  let ?args = "EvaluateCell (Cell_GetValue read fuel) read"
  have args: "\<exists>fe. e = Thrown fe" if "?args p st = Some (Throws e, st')" for p st e st'
    using Suc that by (rule EvaluateCell_throws_FormulaError)
  have E: "Formula_Evaluate ?args ast st \<noteq> Some (Throws e, st')" for ast st e st'
    by (rule Formula_Evaluate_no_throw) (erule args)
  have F: "FormulaImpl_GetValue ?args p ast cache st \<noteq> Some (Throws e, st')" for ast cache
  proof
    assume a: "FormulaImpl_GetValue ?args p ast cache st = Some (Throws e, st')"
    show False
    proof (cases cache)
      case None
      with a show False
        using E
        by (auto simp: FormulaImpl_GetValue_def bind_def return_def set_cache_def
            split: option.splits prod.splits outcome.splits)
    next
      case (Some v)
      with a show False
        using E
        by (auto simp: FormulaImpl_GetValue_def bind_def return_def
            split: option.splits prod.splits outcome.splits)
    qed
  qed
  show ?case
  proof (cases "deref (fst st) p")
    case None
    then show ?thesis by simp
  next
    case (Some c)
    then show ?thesis using F
      by (cases "impl c") (auto simp: Impl_GetValue_def return_def)
  qed
qed

subsection \<open>What GetValue of a formula cell returns\<close>

text \<open>
  The outcome of \<^verbatim>\<open>Cell::GetValue\<close> on a formula cell is the outcome of one execution of
  the tree on the sheet, with a thrown \<^verbatim>\<open>FormulaError\<close> turned into the returned value.
\<close>

lemma Cell_GetValue_formula_outcome:
  assumes c: "deref (fst st) p = Some c" and f: "impl c = FormulaImpl ast cache"
  shows "map_option fst (Cell_GetValue read (Suc fuel) p st)
       = map_option (\<lambda>x. surface (fst x))
           (FormulaAST_Execute (Execute ast) (EvaluateCell (Cell_GetValue read fuel) read)
              (fst st, Suc (snd st)))"
proof -
  let ?args = "EvaluateCell (Cell_GetValue read fuel) read"
  have b: "cache_blind (?args q)" for q
    by (intro cache_blind_EvaluateCell cache_blind_Cell_GetValue preserves_Cell_GetValue)
  have pr: "preserves (\<lambda>st. forget (fst st)) (?args q)" for q
    by (intro preserves_EvaluateCell preserves_Cell_GetValue)
  have "map_option fst (Cell_GetValue read (Suc fuel) p st)
      = map_option fst (FormulaImpl_GetValue ?args p ast cache st)"
    using c f by (simp add: Impl_GetValue_def)
  also have "\<dots> = map_option fst
           (bind (Formula_Evaluate ?args ast)
              (\<lambda>v. return (case v of FDouble d \<Rightarrow> VDouble d | FError e \<Rightarrow> VError e)) st)"
    using b pr by (rule FormulaImpl_GetValue_outcome)
  also have "\<dots> = map_option (\<lambda>x. surface (fst x))
           (FormulaAST_Execute (Execute ast) ?args (fst st, Suc (snd st)))"
  proof (cases "FormulaAST_Execute (Execute ast) ?args (fst st, Suc (snd st))")
    case None
    then show ?thesis by (cases st) (simp add: bind_def Formula_Evaluate_def)
  next
    case (Some x)
    obtain r t where x: "x = (r, t)" by (cases x)
    show ?thesis
    proof (cases r)
      case (Returns d)
      then show ?thesis using Some x by (cases st) (simp add: bind_def Formula_Evaluate_def return_def)
    next
      case (Throws y)
      then show ?thesis using Some x
        by (cases st; cases y) (simp_all add: bind_def Formula_Evaluate_def return_def)
    next
      case Undefined
      then show ?thesis using Some x by (cases st) (simp add: bind_def Formula_Evaluate_def return_def)
    qed
  qed
  finally show ?thesis .
qed

lemma surface_VError: "surface r = Returns (VError e) \<longleftrightarrow> r = Throws (Thrown e)"
  by (cases r rule: surface.cases) auto

lemma surface_VDouble: "surface r = Returns (VDouble d) \<longleftrightarrow> r = Returns d"
  by (cases r rule: surface.cases) auto

lemma surface_VString: "surface r \<noteq> Returns (VString str)"
  by (cases r rule: surface.cases) auto

lemma map_option_fst_eq:
  "map_option fst x = map_option (\<lambda>y. g (fst y)) z \<Longrightarrow>
   ((\<exists>t. x = Some (v, t)) \<longleftrightarrow> (\<exists>r t. z = Some (r, t) \<and> g r = v)) \<and> (x = None \<longleftrightarrow> z = None)"
  by (cases x; cases z) auto

lemma Cell_GetValue_formula:
  assumes c: "deref (fst st) p = Some c" and f: "impl c = FormulaImpl ast cache"
  shows "((\<exists>t. Cell_GetValue read (Suc fuel) p st = Some (Returns (VError e), t))
          \<longleftrightarrow> (\<exists>t. FormulaAST_Execute (Execute ast) (EvaluateCell (Cell_GetValue read fuel) read)
                     (fst st, Suc (snd st)) = Some (Throws (Thrown e), t)))"
    and "((\<exists>t. Cell_GetValue read (Suc fuel) p st = Some (Returns (VDouble d), t))
          \<longleftrightarrow> (\<exists>t. FormulaAST_Execute (Execute ast) (EvaluateCell (Cell_GetValue read fuel) read)
                     (fst st, Suc (snd st)) = Some (Returns d, t)))"
    and "(Cell_GetValue read (Suc fuel) p st = None
          \<longleftrightarrow> FormulaAST_Execute (Execute ast) (EvaluateCell (Cell_GetValue read fuel) read)
                     (fst st, Suc (snd st)) = None)"
    and "Cell_GetValue read (Suc fuel) p st \<noteq> Some (Returns (VString str), t)"
  using map_option_fst_eq[OF Cell_GetValue_formula_outcome[OF c f, of read fuel], of "Returns (VError e)"]
        map_option_fst_eq[OF Cell_GetValue_formula_outcome[OF c f, of read fuel], of "Returns (VDouble d)"]
        map_option_fst_eq[OF Cell_GetValue_formula_outcome[OF c f, of read fuel], of "Returns (VString str)"]
  by (auto simp: surface_VError surface_VDouble surface_VString)

subsection \<open>The invalidation returns\<close>

lemma for_each_returns:
  assumes "I s"
    and "\<And>x t. x \<in> set xs \<Longrightarrow> I t \<Longrightarrow> \<exists>t'. f x t = Some (Returns (), t') \<and> I t'"
  shows "\<exists>s'. for_each xs f s = Some (Returns (), s') \<and> I s'"
  using assms
proof (induction xs arbitrary: s)
  case Nil
  then show ?case by (simp add: return_def)
next
  case (Cons x xs)
  from Cons.prems obtain t where t: "f x s = Some (Returns (), t)" and "I t" by force
  then obtain s' where "for_each xs f t = Some (Returns (), s')" and "I s'"
    using Cons.IH[of t] Cons.prems(2) by auto
  then show ?case using t by (auto simp: bind_def)
qed

lemma edge_live: "(q, p) \<in> edges s \<Longrightarrow> deref s q \<noteq> None"
  by (auto simp: edges_def outgoing_def split: option.splits)

lemma readers_live: "q \<in> readers s p \<Longrightarrow> deref s q \<noteq> None"
proof -
  assume "q \<in> readers s p"
  then have "(q, p) \<in> (edges s)\<^sup>+" by (simp add: readers_def)
  then obtain y where "(q, y) \<in> edges s" by (auto elim: converse_tranclE)
  then show ?thesis by (rule edge_live)
qed

lemma live_keys: "deref s q \<noteq> None \<Longrightarrow> q \<in> fst ` set s"
  by (auto simp: deref_def split: option.splits dest!: map_of_SomeD intro: rev_image_eqI)

lemma finite_readers: "finite (readers s p)"
  by (rule finite_subset[of _ "fst ` set s"]) (auto dest!: readers_live live_keys)

lemma card_readers: "card (readers s p) \<le> length s"
proof -
  have "readers s p \<subseteq> fst ` set s" by (auto dest!: readers_live live_keys)
  then have "card (readers s p) \<le> card (fst ` set s)" by (intro card_mono) auto
  also have "\<dots> \<le> card (set s)" by (rule card_image_le) simp
  also have "\<dots> \<le> length s" by (rule card_length)
  finally show ?thesis .
qed

lemma readers_step:
  assumes "acyclic (edges s)" and "(q, p) \<in> edges s"
  shows "card (readers s q) < card (readers s p)"
proof -
  have "q \<in> readers s p" using assms(2) by (auto simp: readers_def)
  moreover have "q \<notin> readers s q" using assms(1) by (auto simp: readers_def acyclic_def)
  moreover have "readers s q \<subseteq> readers s p"
    using assms(2) by (auto simp: readers_def intro: trancl_into_trancl)
  ultimately have "readers s q \<subset> readers s p" by auto
  then show ?thesis using finite_readers by (rule psubset_card_mono[rotated])
qed

lemma forget_eq_readers: "forget s' = forget s \<Longrightarrow> readers s' p = readers s p"
  using forget_eq_outgoing[of s' s] by (simp add: readers_def edges_def)

lemma InvalidateCacheRecursive_returns:
  assumes "sheet_invariant s" and "deref s this \<noteq> None" and "card (readers s this) < fuel"
  shows "\<exists>s'. InvalidateCacheRecursive fuel force this s = Some (Returns (), s')"
  using assms
proof (induction fuel arbitrary: s this force)
  case 0
  then show ?case by simp
next
  case (Suc fuel)
  from Suc.prems(2) obtain c where c: "deref s this = Some c" by auto
  show ?case
  proof (cases "Impl_IsCacheValid (impl c) \<or> force")
    case False
    then show ?thesis using c by simp
  next
    case True
    define s1 where "s1 = AList.update this (Some (c\<lparr>impl := Impl_InvalidateCache (impl c)\<rparr>)) s"
    have m: "modify_cell this (\<lambda>c. c\<lparr>impl := Impl_InvalidateCache (impl c)\<rparr>) s = Some (Returns (), s1)"
      using c by (simp add: modify_cell_def s1_def)
    have f1: "forget s1 = forget s"
      using preservesD[OF preserves_forget_modify_cell m]
      by (simp add: forget_cell_def Impl_InvalidateCache_def split: Impl.splits)
    have step: "\<exists>t'. InvalidateCacheRecursive fuel False x t = Some (Returns (), t') \<and> forget t' = forget s"
      if x: "x \<in> set (l_nodes c)" and t: "forget t = forget s" for x t
    proof -
      have inv: "sheet_invariant t" using t Suc.prems(1) by (rule invariant_forget)
      have xi: "x \<in> incoming s this" using x c by (simp add: incoming_def)
      then have "deref s x \<noteq> None"
        using Suc.prems(1) mirror_no_dangling by (auto simp: sheet_invariant_def)
      then have live: "deref t x \<noteq> None" using forget_eq_live[OF t] by simp
      have "(x, this) \<in> edges s"
        using xi Suc.prems(1) by (auto simp: sheet_invariant_def edge_mirror_def edges_def)
      then have "card (readers s x) < card (readers s this)"
        using Suc.prems(1) by (intro readers_step) (auto simp: sheet_invariant_def)
      then have "card (readers t x) < fuel"
        using Suc.prems(3) by (simp add: forget_eq_readers[OF t])
      from Suc.IH[OF inv live this] obtain t' where
        r: "InvalidateCacheRecursive fuel False x t = Some (Returns (), t')" by blast
      have "forget t' = forget t"
        using preservesD[OF preserves_forget_InvalidateCacheRecursive r] .
      then show ?thesis using r t by simp
    qed
    from for_each_returns[of "\<lambda>t. forget t = forget s" s1 "l_nodes c" "InvalidateCacheRecursive fuel False",
        OF f1 step]
    obtain s' where "for_each (l_nodes c) (InvalidateCacheRecursive fuel False) s1 = Some (Returns (), s')"
      by blast
    then show ?thesis using c True m by (auto simp: bind_def)
  qed
qed

subsection \<open>ClearCell returns\<close>

lemma Cell_Set_empty_returns:
  assumes inv: "sheet_invariant s" and live: "deref s this \<noteq> None" and fuel: "length s < fuel"
  shows "\<exists>s'. Cell_Set setCell parse fuel this [] s = Some (Returns (), s')"
proof -
  let ?g = "\<lambda>d::'a Cell. d\<lparr>l_nodes := removeAll this (l_nodes d)\<rparr>"
  from live obtain c where c: "deref s this = Some c" by auto
  have m: "edge_mirror s" and a: "acyclic (edges s)" using inv by (simp_all add: sheet_invariant_def)
  define s1 where "s1 = AList.update this (Some (c\<lparr>impl := EmptyImpl\<rparr>)) s"
  have 1: "modify_cell this (\<lambda>c. c\<lparr>impl := EmptyImpl\<rparr>) s = Some (Returns (), s1)"
    using c by (simp add: modify_cell_def s1_def)
  have d1: "deref s1 this = Some (c\<lparr>impl := EmptyImpl\<rparr>)" by (simp add: s1_def deref_update)
  have l1: "deref s1 p = None \<longleftrightarrow> deref s p = None" for p
    using c by (simp add: s1_def deref_update)
  have "\<exists>t'. modify_cell q ?g t = Some (Returns (), t') \<and> (\<forall>p. deref t' p = None \<longleftrightarrow> deref s p = None)"
    if q: "q \<in> set (r_nodes c)" and t: "\<forall>p. deref t p = None \<longleftrightarrow> deref s p = None" for q t
  proof -
    have "q \<in> outgoing s this" using q c by (simp add: outgoing_def)
    then have "this \<in> incoming s q" using m by (simp add: edge_mirror_def)
    then have sq: "deref s q \<noteq> None" by (auto simp: incoming_def split: option.splits)
    then have "deref t q \<noteq> None" using t by simp
    then obtain d where d: "deref t q = Some d" by (cases "deref t q") auto
    have "deref (AList.update q (Some (?g d)) t) p = None \<longleftrightarrow> deref s p = None" for p
      using sq t by (cases "p = q") (simp_all add: deref_update)
    then show ?thesis using d by (simp add: modify_cell_def)
  qed
  from for_each_returns[of "\<lambda>t. \<forall>p. deref t p = None \<longleftrightarrow> deref s p = None" s1 "r_nodes c"
      "\<lambda>q. modify_cell q ?g", OF _ this]
  obtain s2 where e: "for_each (r_nodes c) (\<lambda>q. modify_cell q ?g) s1 = Some (Returns (), s2)"
    and l2: "\<forall>p. deref s2 p = None \<longleftrightarrow> deref s p = None"
    using l1 by blast
  have 2: "(case deref s1 this of None \<Rightarrow> Some (Undefined, s1)
             | Some c \<Rightarrow> for_each (r_nodes c) (\<lambda>outgoing. modify_cell outgoing ?g) s1)
            = Some (Returns (), s2)"
    using d1 e by simp
  from l2 c obtain c2 where c2: "deref s2 this = Some c2" by (cases "deref s2 this") auto
  define s3 where "s3 = AList.update this (Some (c2\<lparr>r_nodes := []\<rparr>)) s2"
  have 3: "modify_cell this (\<lambda>c. c\<lparr>r_nodes := []\<rparr>) s2 = Some (Returns (), s3)"
    using c2 by (simp add: modify_cell_def s3_def)
  note o3 = unlink_Returns(1)[OF 1 2 3] and i3 = unlink_Returns(2)[OF 1 2 3]
    and l3 = unlink_Returns(3)[OF 1 2 3]
  have m3: "edge_mirror s3" using m unfolding edge_mirror_def o3 i3 by auto
  have sub: "edges s3 \<subseteq> edges s" unfolding edges_def o3 by (auto split: if_splits)
  then have a3: "acyclic (edges s3)" using a by (rule acyclic_subset[rotated])
  have inv3: "sheet_invariant s3" using m3 a3 by (simp add: sheet_invariant_def)
  have "readers s3 this \<subseteq> readers s this"
    unfolding readers_def using trancl_mono[OF _ sub] by auto
  then have "card (readers s3 this) \<le> card (readers s this)"
    by (intro card_mono finite_readers)
  then have "card (readers s3 this) < fuel" using card_readers[of s this] fuel by simp
  from InvalidateCacheRecursive_returns[OF inv3 _ this, of True] l3[of this] c
  obtain s' where 5: "InvalidateCacheRecursive fuel True this s3 = Some (Returns (), s')" by auto
  have "Cell_Set setCell parse fuel this [] s = Some (Returns (), s')"
    using 1 2 3 5
    by (simp add: Cell_Set_unfold CreateImpl_empty WouldIntroduce_EmptyImpl bind_def
        UpdateDependencies_def Impl_GetReferencedCells_def return_def)
  then show ?thesis by blast
qed

lemma ClearCell_returns:
  assumes inv: "sheet_invariant s" and v: "IsValid pos" and fuel: "length s < fuel"
  shows "\<exists>s'. ClearCell parse fuel pos s = Some (Returns (), s')"
proof (cases "deref s pos")
  case None
  then show ?thesis using v by (auto simp: ClearCell_def deref_def split: option.splits)
next
  case (Some c)
  then have mo: "map_of s pos = Some (Some c)" by (simp add: deref_Some_map_of)
  from Cell_Set_empty_returns[OF inv _ fuel, of pos "SetCell parse fuel" parse] Some
  obtain s1 where s1: "Cell_Set (SetCell parse fuel) parse fuel pos [] s = Some (Returns (), s1)"
    by auto
  from s1 have "deref s1 pos \<noteq> None"
    by (rule Cell_Set_Returns) (use Some in auto)
  then obtain c' where "deref s1 pos = Some c'" by auto
  then show ?thesis using v mo s1 by (simp add: ClearCell_def bind_def)
qed

section \<open>Claims\<close>

text \<open>
  C3. The claim: \<^verbatim>\<open>SetCell\<close> at a valid position edits the cell or raises one of the
  specified exceptions, also after \<^verbatim>\<open>ClearCell\<close> at that position. After
  \<^verbatim>\<open>SetCell(A1, "x")\<close> and \<^verbatim>\<open>ClearCell(A1)\<close> the entry of \<open>A1\<close> holds a null pointer, and
  \<^verbatim>\<open>SetCell(A1, "y")\<close> dereferences it. The same happens inside
  \<^verbatim>\<open>UpdateDependencies\<close> when a formula refers to a cleared position: after
  \<^verbatim>\<open>SetCell(B1, "x")\<close> and \<^verbatim>\<open>ClearCell(B1)\<close>, the call \<^verbatim>\<open>SetCell(A1, "=B1")\<close> installs the
  formula and then calls \<^verbatim>\<open>SetCell(B1, "")\<close> on the reset entry.
\<close>

theorem C3_SetCell_after_ClearCell_undefined:
  "bind (SetCell parse (Suc (Suc n)) A1 ''x'')
     (\<lambda>_. bind (ClearCell parse (Suc (Suc n)) A1)
        (\<lambda>_. SetCell parse (Suc (Suc n)) A1 ''y'')) CreateSheet
   = Some (Undefined, [(A1, None)])
   \<and> bind (SetCell scenario_parse 3 B1 ''x'')
     (\<lambda>_. bind (ClearCell scenario_parse 3 B1)
        (\<lambda>_. SetCell scenario_parse 3 A1 ''=B1'')) CreateSheet
   = Some (Undefined,
       [(B1, None),
        (A1, Some \<lparr>impl = FormulaImpl (reference_ast ''B1'' B1) None, l_nodes = [], r_nodes = []\<rparr>)])"
proof -
  have "bind (SetCell parse (Suc (Suc n)) A1 ''x'')
     (\<lambda>_. bind (ClearCell parse (Suc (Suc n)) A1)
        (\<lambda>_. SetCell parse (Suc (Suc n)) A1 ''y'')) CreateSheet
   = Some (Undefined, [(A1, None)])"
    by (simp add: bind_def CreateSheet_def IsValid_A1 deref_def Cell_Set_def CreateImpl_def
      new_TextImpl_def FORMULA_SIGN_def WouldIntroduceCircularDependency_def
      Impl_GetReferencedCells_def modify_cell_def UpdateDependencies_def return_def new_Cell_def
      Impl_IsCacheValid_def Impl_InvalidateCache_def ClearCell_def IsReferenced_def)
  moreover have "bind (SetCell scenario_parse 3 B1 ''x'')
     (\<lambda>_. bind (ClearCell scenario_parse 3 B1)
        (\<lambda>_. SetCell scenario_parse 3 A1 ''=B1'')) CreateSheet
   = Some (Undefined,
       [(B1, None),
        (A1, Some \<lparr>impl = FormulaImpl (reference_ast ''B1'' B1) None, l_nodes = [], r_nodes = []\<rparr>)])"
    by (simp add: numeral_3_eq_3 bind_def CreateSheet_def IsValid_A1 IsValid_B1 deref_def Cell_Set_def
      CreateImpl_def new_TextImpl_def new_FormulaImpl_def ParseFormula_def scenario_parse_def
      reference_ast_def FORMULA_SIGN_def WouldIntroduceCircularDependency_def
      Formula_GetReferencedCells_def Impl_GetReferencedCells_def modify_cell_def
      UpdateDependencies_def UpdateDependencies_body_def return_def new_Cell_def GetCellPtr_def
      Impl_IsCacheValid_def Impl_InvalidateCache_def ClearCell_def IsReferenced_def A1_neq_B1)
  ultimately show ?thesis by simp
qed

text \<open>
  C10. \<^verbatim>\<open>ClearCell\<close> never raises \<^verbatim>\<open>FormulaException\<close> or
  \<^verbatim>\<open>CircularDependencyException\<close>, from any sheet, at any position and with any bound
  on the recursion: the empty text gives an Empty body, an Empty body has no
  references, and the cycle check of a body with no references returns false. In a
  reachable sheet, at a valid position, the call returns normally once the bound
  exceeds the number of entries.
\<close>

theorem C10_ClearCell_never_raises:
  "CreateImpl parse [] = Returns EmptyImpl
   \<and> Impl_GetReferencedCells (EmptyImpl :: 'd::zero Impl) = []
   \<and> WouldIntroduceCircularDependency s pos (EmptyImpl :: 'd Impl) = Returns False
   \<and> ClearCell parse fuel pos s \<noteq> Some (Throws FormulaException, s')
   \<and> ClearCell parse fuel pos s \<noteq> Some (Throws CircularDependencyException, s')
   \<and> (reachable parse read s \<and> IsValid pos \<and> length s < fuel
        \<longrightarrow> (\<exists>s''. ClearCell parse fuel pos s = Some (Returns (), s'')))"
proof -
  have "ClearCell parse fuel pos s = Some (Throws e, s') \<Longrightarrow> e = InvalidPositionException" for e
    unfolding ClearCell_def bind_def
    using no_throwD[OF no_throw_Cell_Set_empty, of "SetCell parse fuel" parse fuel pos s]
    by (auto split: if_splits option.splits outcome.splits prod.splits)
  moreover have "\<exists>s''. ClearCell parse fuel pos s = Some (Returns (), s'')"
    if "reachable parse read s" and "IsValid pos" and "length s < fuel"
    using reachable_invariant[OF that(1)] that(2,3) by (rule ClearCell_returns)
  ultimately show ?thesis
    by (auto simp: CreateImpl_empty WouldIntroduce_EmptyImpl Impl_GetReferencedCells_def)
qed

theorem C10_witness:
  "reachable scenario_parse scenario_extract sheet_A1_reads_B1
   \<and> (\<exists>s''. ClearCell scenario_parse 3 A1 sheet_A1_reads_B1 = Some (Returns (), s''))
   \<and> ClearCell scenario_parse 3 A1 sheet_A1_reads_B1
       = Some (Returns (), [(A1, None), (B1, Some new_Cell)])"
proof -
  have "length sheet_A1_reads_B1 < 3" by (simp add: sheet_A1_reads_B1_def)
  then have "\<exists>s''. ClearCell scenario_parse 3 A1 sheet_A1_reads_B1 = Some (Returns (), s'')"
    using C10_ClearCell_never_raises[of scenario_parse sheet_A1_reads_B1 A1 3 _ scenario_extract]
      reachable_A1_reads_B1 IsValid_A1 by blast
  moreover have "ClearCell scenario_parse 3 A1 sheet_A1_reads_B1
       = Some (Returns (), [(A1, None), (B1, Some new_Cell)])"
    by (simp add: numeral_3_eq_3 sheet_A1_reads_B1_def ClearCell_def IsValid_A1 bind_def Cell_Set_def
        CreateImpl_def WouldIntroduceCircularDependency_def Impl_GetReferencedCells_def
        modify_cell_def deref_def A1_neq_B1 UpdateDependencies_def return_def
        Impl_IsCacheValid_def Impl_InvalidateCache_def IsReferenced_def new_Cell_def)
  ultimately show ?thesis using reachable_A1_reads_B1 by blast
qed

text \<open>
  C4. The claim: \<^verbatim>\<open>GetValue\<close> of a formula cell evaluates the formula once when the cache
  is empty and not at all when it is filled. After \<^verbatim>\<open>SetCell(A1, "=1")\<close> the first
  \<^verbatim>\<open>GetValue\<close> calls \<^verbatim>\<open>Formula::Evaluate\<close> twice (the counter goes from 0 to 2), and a
  second \<^verbatim>\<open>GetValue\<close>, with the cache filled, calls it once more.
\<close>

theorem C4_GetValue_evaluates_again:
  "SetCell scenario_parse 2 A1 ''=1'' CreateSheet
     = Some (Returns (),
         [(A1, Some \<lparr>impl = FormulaImpl (number_ast ''1'' 1) None, l_nodes = [], r_nodes = []\<rparr>)])
   \<and> Cell_GetValue scenario_extract 1 A1
       ([(A1, Some \<lparr>impl = FormulaImpl (number_ast ''1'' 1) None, l_nodes = [], r_nodes = []\<rparr>)], 0)
     = Some (Returns (VDouble 1),
         [(A1, Some \<lparr>impl = FormulaImpl (number_ast ''1'' 1) (Some (FDouble 1)),
                     l_nodes = [], r_nodes = []\<rparr>)], 2)
   \<and> Cell_GetValue scenario_extract 1 A1
       ([(A1, Some \<lparr>impl = FormulaImpl (number_ast ''1'' 1) (Some (FDouble 1)),
                   l_nodes = [], r_nodes = []\<rparr>)], 0)
     = Some (Returns (VDouble 1),
         [(A1, Some \<lparr>impl = FormulaImpl (number_ast ''1'' 1) (Some (FDouble 1)),
                     l_nodes = [], r_nodes = []\<rparr>)], 1)"
  by (simp add: numeral_2_eq_2 bind_def CreateSheet_def IsValid_A1 deref_def Cell_Set_def
      CreateImpl_def new_FormulaImpl_def ParseFormula_def scenario_parse_def number_ast_def
      FORMULA_SIGN_def WouldIntroduceCircularDependency_def Formula_GetReferencedCells_def
      Impl_GetReferencedCells_def modify_cell_def UpdateDependencies_def return_def new_Cell_def
      Impl_IsCacheValid_def Impl_InvalidateCache_def Impl_GetValue_def FormulaImpl_GetValue_def
      Formula_Evaluate_def set_cache_def)

text \<open>
  C6. No exception leaves \<^verbatim>\<open>Cell::GetValue\<close>, from any state and with any bound on the
  recursion, and no \<^verbatim>\<open>FormulaError\<close> leaves \<^verbatim>\<open>Formula::Evaluate\<close> as an exception:
  \<^verbatim>\<open>Formula::Evaluate\<close> returns the error \<open>e\<close> as its value exactly when the execution
  of the tree threw \<open>e\<close>. \<^verbatim>\<open>Cell::GetValue\<close> on a formula cell returns the error \<open>e\<close>
  exactly when the execution of the cell's tree on the sheet throws \<open>e\<close>, returns the
  double \<open>d\<close> exactly when the execution yields \<open>d\<close>, and returns whenever the execution
  ends. On a cell that holds no formula it returns a string and leaves the state as it
  is.
\<close>

theorem C6_evaluation_errors_are_values:
  "Formula_Evaluate args ast st \<noteq> Some (Throws (Thrown e), st')
   \<and> Cell_GetValue read fuel p st \<noteq> Some (Throws x, st')
   \<and> (Formula_Evaluate args ast (s, k) = Some (Returns (FError e), st')
        \<longleftrightarrow> FormulaAST_Execute (Execute ast) args (s, Suc k) = Some (Throws (Thrown e), st'))
   \<and> (deref (fst u) q = Some c \<and> impl c = FormulaImpl f cache \<longrightarrow>
        ((\<exists>t. Cell_GetValue read (Suc n) q u = Some (Returns (VError e), t))
           \<longleftrightarrow> (\<exists>t. FormulaAST_Execute (Execute f) (EvaluateCell (Cell_GetValue read n) read)
                      (fst u, Suc (snd u)) = Some (Throws (Thrown e), t)))
      \<and> ((\<exists>t. Cell_GetValue read (Suc n) q u = Some (Returns (VDouble d), t))
           \<longleftrightarrow> (\<exists>t. FormulaAST_Execute (Execute f) (EvaluateCell (Cell_GetValue read n) read)
                      (fst u, Suc (snd u)) = Some (Returns d, t)))
      \<and> (Cell_GetValue read (Suc n) q u = None
           \<longleftrightarrow> FormulaAST_Execute (Execute f) (EvaluateCell (Cell_GetValue read n) read)
                      (fst u, Suc (snd u)) = None))
   \<and> (deref (fst u) q = Some c \<and> (\<forall>f cache. impl c \<noteq> FormulaImpl f cache) \<longrightarrow>
        (\<exists>str. Cell_GetValue read (Suc n) q u = Some (Returns (VString str), u)))"
proof -
  have 4: "((\<exists>t. Cell_GetValue read (Suc n) q u = Some (Returns (VError e), t))
           \<longleftrightarrow> (\<exists>t. FormulaAST_Execute (Execute f) (EvaluateCell (Cell_GetValue read n) read)
                      (fst u, Suc (snd u)) = Some (Throws (Thrown e), t)))
      \<and> ((\<exists>t. Cell_GetValue read (Suc n) q u = Some (Returns (VDouble d), t))
           \<longleftrightarrow> (\<exists>t. FormulaAST_Execute (Execute f) (EvaluateCell (Cell_GetValue read n) read)
                      (fst u, Suc (snd u)) = Some (Returns d, t)))
      \<and> (Cell_GetValue read (Suc n) q u = None
           \<longleftrightarrow> FormulaAST_Execute (Execute f) (EvaluateCell (Cell_GetValue read n) read)
                      (fst u, Suc (snd u)) = None)"
    if "deref (fst u) q = Some c" and "impl c = FormulaImpl f cache"
    using Cell_GetValue_formula(1-3)[OF that, of read n] by blast
  have 5: "\<exists>str. Cell_GetValue read (Suc n) q u = Some (Returns (VString str), u)"
    if "deref (fst u) q = Some c" and "\<forall>f cache. impl c \<noteq> FormulaImpl f cache"
    using that by (cases "impl c") (simp_all add: Impl_GetValue_def return_def)
  show ?thesis
    using Formula_Evaluate_not_Thrown[of args ast st e st'] Cell_GetValue_no_throw[of read fuel p st x st']
      Formula_Evaluate_FError[of args ast s k e st'] 4 5
    by blast
qed

theorem C6_witness:
  "Formula_Evaluate (EvaluateCell (Cell_GetValue scenario_extract 0) scenario_extract)
      (division_by_zero_ast ''1/0'') ([], 0) = Some (Returns (FError Arithmetic), ([], 1))
   \<and> (\<exists>t. Cell_GetValue scenario_extract 2 A1
        ([(A1, Some \<lparr>impl = FormulaImpl (division_by_zero_ast ''1/0'') None, l_nodes = [], r_nodes = []\<rparr>)], 0)
         = Some (Returns (VError Arithmetic), t))
   \<and> map_option fst (Cell_GetValue scenario_extract 2 A1
        ([(A1, Some \<lparr>impl = FormulaImpl (division_by_zero_ast ''1/0'') None, l_nodes = [], r_nodes = []\<rparr>)], 0))
     = Some (Returns (VError Arithmetic))
   \<and> map_option fst (Cell_GetValue scenario_extract 2 A1
        ([(A1, Some \<lparr>impl = FormulaImpl (reference_ast ''ZZZ9999'' ZZZ9999) None, l_nodes = [], r_nodes = []\<rparr>)], 0))
     = Some (Returns (VError Ref))
   \<and> map_option fst (Cell_GetValue scenario_extract 2 A1
        ([(A1, Some \<lparr>impl = FormulaImpl (reference_ast ''B1'' B1) None, l_nodes = [], r_nodes = [B1]\<rparr>),
          (B1, Some \<lparr>impl = TextImpl ''text'', l_nodes = [A1], r_nodes = []\<rparr>)], 0))
     = Some (Returns (VError Value))"
  using C6_evaluation_errors_are_values[where
      args = "EvaluateCell (Cell_GetValue scenario_extract 0) scenario_extract"
      and ast = "division_by_zero_ast ''1/0''" and st = "([], 0)" and e = Arithmetic
      and st' = "([], 1)" and read = scenario_extract and fuel = 0 and p = A1 and s = "[]" and k = 0
      and u = "([(A1, Some \<lparr>impl = FormulaImpl (division_by_zero_ast ''1/0'') None, l_nodes = [], r_nodes = []\<rparr>)], 0)"
      and q = A1 and n = 1
      and c = "\<lparr>impl = FormulaImpl (division_by_zero_ast ''1/0'') None, l_nodes = [], r_nodes = []\<rparr>"
      and f = "division_by_zero_ast ''1/0''" and cache = None]
  by (simp add: numeral_2_eq_2 bind_def deref_def return_def throw_def lift_def
      division_by_zero_ast_def reference_ast_def Impl_GetValue_def FormulaImpl_GetValue_def
      Formula_Evaluate_def set_cache_def EvaluateCell_def not_IsValid_ZZZ9999 IsValid_B1 A1_neq_B1
      GetCell_def GetCellPtr_def ConvertStringToDouble_def scenario_extract_def)

text \<open>
  C7. In every reachable sheet, for all positions \<open>c\<close> and \<open>d\<close>: \<open>d\<close> is in the
  outgoing set of the cell at \<open>c\<close> exactly when \<open>c\<close> is in the incoming set of the cell
  at \<open>d\<close> (a position without a live cell has empty sets, so no edge dangles).
\<close>

theorem C7_edge_mirror:
  "reachable parse read s \<Longrightarrow> (d \<in> outgoing s c) = (c \<in> incoming s d)"
  using reachable_invariant[of parse read s] by (simp add: sheet_invariant_def edge_mirror_def)

theorem C7_witness:
  "reachable scenario_parse scenario_extract sheet_A1_reads_B1
   \<and> B1 \<in> outgoing sheet_A1_reads_B1 A1 \<and> A1 \<in> incoming sheet_A1_reads_B1 B1"
  using C7_edge_mirror[OF reachable_A1_reads_B1, of B1 A1] reachable_A1_reads_B1
  by (simp add: sheet_A1_reads_B1_def outgoing_def deref_def)

text \<open>
  C2. In every reachable sheet the graph of the outgoing edges is acyclic. And a
  \<^verbatim>\<open>SetCell\<close> at a valid position whose entry was not reset, with a text that gives the
  body \<open>new_impl\<close>, raises \<^verbatim>\<open>CircularDependencyException\<close> whenever the graph with the edges
  of the cell replaced by the references of \<open>new_impl\<close> has a cycle; the sheet is left as
  it was, but for the Empty cell materialized at a position that had no entry.
\<close>

theorem C2_acyclic:
  "reachable parse read s \<Longrightarrow>
   acyclic (edges s)
   \<and> (IsValid pos \<and> map_of s pos \<noteq> Some None \<and> CreateImpl parse t = Returns new_impl
        \<and> \<not> acyclic ({(c, d). (c, d) \<in> edges s \<and> c \<noteq> pos}
                 \<union> {pos} \<times> set (Impl_GetReferencedCells new_impl))
      \<longrightarrow> SetCell parse (Suc n) pos t s =
            Some (Throws CircularDependencyException,
                  if map_of s pos = None then s @ [(pos, Some new_Cell)] else s))"
  using reachable_invariant[of parse read s] SetCell_cycle_raises[of s pos parse t new_impl n]
  by (simp add: sheet_invariant_def)

theorem C2_witness:
  "acyclic (edges sheet_A1_reads_B1)
   \<and> SetCell scenario_parse 3 B1 ''=A1'' sheet_A1_reads_B1
       = Some (Throws CircularDependencyException, sheet_A1_reads_B1)"
proof -
  let ?new = "FormulaImpl (reference_ast ''A1'' A1) None"
  have ci: "CreateImpl scenario_parse ''=A1'' = Returns ?new"
    by (simp add: CreateImpl_def new_FormulaImpl_def ParseFormula_def scenario_parse_def FORMULA_SIGN_def)
  have refs: "Impl_GetReferencedCells ?new = [A1]"
    by (simp add: Impl_GetReferencedCells_def Formula_GetReferencedCells_def reference_ast_def IsValid_A1)
  have e1: "(A1, B1) \<in> {(c, d). (c, d) \<in> edges sheet_A1_reads_B1 \<and> c \<noteq> B1} \<union> {B1} \<times> set [A1]"
    by (simp add: edges_def outgoing_def deref_def sheet_A1_reads_B1_def A1_neq_B1)
  have e2: "(B1, A1) \<in> {(c, d). (c, d) \<in> edges sheet_A1_reads_B1 \<and> c \<noteq> B1} \<union> {B1} \<times> set [A1]"
    by simp
  have cyc: "\<not> acyclic ({(c, d). (c, d) \<in> edges sheet_A1_reads_B1 \<and> c \<noteq> B1}
                 \<union> {B1} \<times> set (Impl_GetReferencedCells ?new))"
    unfolding refs acyclic_def using trancl_into_trancl[OF r_into_trancl[OF e1] e2] by blast
  have m: "map_of sheet_A1_reads_B1 B1 \<noteq> Some None" "map_of sheet_A1_reads_B1 B1 \<noteq> None"
    by (simp_all add: sheet_A1_reads_B1_def A1_neq_B1)
  show ?thesis
    using C2_acyclic[OF reachable_A1_reads_B1, of B1 "''=A1''" ?new 2] IsValid_B1 m ci cyc
    by (simp add: numeral_3_eq_3)
qed

text \<open>
  C1. The claim: a \<^verbatim>\<open>SetCell\<close> that raises \<^verbatim>\<open>FormulaException\<close> or
  \<^verbatim>\<open>CircularDependencyException\<close> leaves the sheet as it was, and a cell materialized
  at an absent position during the call is dropped. On a new sheet, \<^verbatim>\<open>SetCell(A1, "=1+")\<close>
  raises \<^verbatim>\<open>FormulaException\<close> and leaves an Empty cell at \<open>A1\<close>: \<^verbatim>\<open>GetCell(A1)\<close> was
  null before the call and is a cell after it.
\<close>

theorem C1_counterexample:
  "SetCell scenario_parse 2 A1 ''=1+'' CreateSheet = Some (Throws FormulaException, [(A1, Some new_Cell)])
   \<and> GetCell (CreateSheet :: int Sheet) A1 = Returns None
   \<and> GetCell [(A1, Some (new_Cell :: int Cell))] A1 = Returns (Some A1)"
  by (simp add: numeral_2_eq_2 CreateSheet_def IsValid_A1 deref_def Cell_Set_def CreateImpl_def
      new_FormulaImpl_def ParseFormula_def scenario_parse_def FORMULA_SIGN_def GetCell_def GetCellPtr_def)

text \<open>
  C1 as amended. A \<^verbatim>\<open>SetCell\<close> that raises \<^verbatim>\<open>FormulaException\<close> or
  \<^verbatim>\<open>CircularDependencyException\<close> leaves every entry of the sheet (bodies, adjacency
  sets, caches) and the printable size as they were; when the position had an entry
  the sheet is the one before the call, and when it had none the sheet has one more
  entry, an Empty cell with no edges at that position, which \<^verbatim>\<open>GetCell\<close> returns.
\<close>

theorem C1_failed_SetCell:
  "SetCell parse fuel pos t s = Some (Throws e, s') \<Longrightarrow>
   e = FormulaException \<or> e = CircularDependencyException \<Longrightarrow>
   s' = (if map_of s pos = None then s @ [(pos, Some new_Cell)] else s)
   \<and> GetPrintableSize s' = GetPrintableSize s
   \<and> (\<forall>p. p \<noteq> pos \<longrightarrow> map_of s' p = map_of s p)
   \<and> (map_of s pos = None \<longrightarrow> GetCell s' pos = Returns (Some pos) \<and> deref s' pos = Some new_Cell)
   \<and> (map_of s pos \<noteq> None \<longrightarrow> s' = s)"
proof -
  assume a: "SetCell parse fuel pos t s = Some (Throws e, s')"
    and e: "e = FormulaException \<or> e = CircularDependencyException"
  from SetCell_Throws[OF a] e have v: "IsValid pos"
    and s': "s' = (if map_of s pos = None then s @ [(pos, Some new_Cell)] else s)"
    by auto
  show ?thesis
  proof (cases "map_of s pos = None")
    case True
    then have "s' = s @ [(pos, Some new_Cell)]" using s' by simp
    then show ?thesis
      using True v
      by (auto simp: GetPrintableSize_append_new_Cell GetCell_def GetCellPtr_eq deref_append
          map_add_def split: option.splits)
  next
    case False
    then show ?thesis using s' by auto
  qed
qed

theorem C1_witness:
  "SetCell scenario_parse 2 A1 ''=A1'' CreateSheet
     = Some (Throws CircularDependencyException, [(A1, Some new_Cell)])
   \<and> GetPrintableSize [(A1, Some (new_Cell :: int Cell))] = GetPrintableSize (CreateSheet :: int Sheet)
   \<and> SetCell scenario_parse 2 B1 ''=1+'' sheet_A1_reads_B1 = Some (Throws FormulaException, sheet_A1_reads_B1)"
proof -
  have 1: "SetCell scenario_parse 2 A1 ''=A1'' CreateSheet
     = Some (Throws CircularDependencyException, [(A1, Some new_Cell)])"
    by (simp add: numeral_2_eq_2 CreateSheet_def IsValid_A1 deref_def Cell_Set_def CreateImpl_def
      new_FormulaImpl_def ParseFormula_def scenario_parse_def FORMULA_SIGN_def reference_ast_def
      WouldIntroduceCircularDependency_def Impl_GetReferencedCells_def Formula_GetReferencedCells_def
      GetCellPtr_def)
  have 2: "SetCell scenario_parse 2 B1 ''=1+'' sheet_A1_reads_B1 = Some (Throws FormulaException, sheet_A1_reads_B1)"
    by (simp add: numeral_2_eq_2 sheet_A1_reads_B1_def IsValid_B1 deref_def Cell_Set_def CreateImpl_def
      new_FormulaImpl_def ParseFormula_def scenario_parse_def FORMULA_SIGN_def A1_neq_B1)
  show ?thesis
    using C1_failed_SetCell[OF 1] 1 2 by (simp add: CreateSheet_def)
qed

text \<open>
  C9. The claim: after \<^verbatim>\<open>SetCell(AAA1, "=ZZZ9999")\<close> and \<^verbatim>\<open>ClearCell(AAA1)\<close> the printable
  size is (0, 0) and \<^verbatim>\<open>GetCell(ZZZ9999)\<close> reports the materialized cell absent. The size
  is (0, 0), but \<open>ZZZ9999\<close> lies outside the 16384 columns: no cell is materialized
  there and \<^verbatim>\<open>GetCell(ZZZ9999)\<close> raises \<^verbatim>\<open>InvalidPositionException\<close>. With the valid
  position \<open>ZZ9999\<close> in its place the materialized cell stays in the sheet after
  \<^verbatim>\<open>ClearCell(AAA1)\<close> and \<^verbatim>\<open>GetCell\<close> returns it.
\<close>

theorem C9_counterexample:
  "bind (SetCell scenario_parse 3 AAA1 ''=ZZZ9999'') (\<lambda>_. ClearCell scenario_parse 3 AAA1) CreateSheet
     = Some (Returns (), [(AAA1, None)])
   \<and> GetPrintableSize [(AAA1, None :: int Cell option)] = Size 0 0
   \<and> GetCell [(AAA1, None :: int Cell option)] ZZZ9999 = Throws InvalidPositionException
   \<and> bind (SetCell scenario_parse 3 AAA1 ''=ZZ9999'') (\<lambda>_. ClearCell scenario_parse 3 AAA1) CreateSheet
     = Some (Returns (), [(AAA1, None), (ZZ9999, Some new_Cell)])
   \<and> GetCell [(AAA1, None), (ZZ9999, Some (new_Cell :: int Cell))] ZZ9999 = Returns (Some ZZ9999)"
  by (simp add: numeral_3_eq_3 bind_def CreateSheet_def IsValid_AAA1 IsValid_ZZ9999 not_IsValid_ZZZ9999
      deref_def Cell_Set_def
      CreateImpl_def new_FormulaImpl_def ParseFormula_def scenario_parse_def reference_ast_def
      FORMULA_SIGN_def WouldIntroduceCircularDependency_def Formula_GetReferencedCells_def
      Impl_GetReferencedCells_def modify_cell_def UpdateDependencies_def UpdateDependencies_body_def
      return_def new_Cell_def GetCellPtr_def GetCell_def ClearCell_def IsReferenced_def
      Impl_IsCacheValid_def Impl_InvalidateCache_def GetPrintableSize_def AAA1_neq_ZZ9999)

text \<open>
  C9 as amended. Let the formula \<open>ZZZ9999\<close> parse to a tree whose only position is
  \<open>q\<close>, not \<open>AAA1\<close>. After \<^verbatim>\<open>SetCell(AAA1, "=ZZZ9999")\<close> and \<^verbatim>\<open>ClearCell(AAA1)\<close> on a new
  sheet the printable size is (0, 0) and the entry of \<open>AAA1\<close> holds no cell. Nothing
  else is dropped: when \<open>q\<close> is valid, the Empty cell materialized at \<open>q\<close> is still in the
  sheet and \<^verbatim>\<open>GetCell(q)\<close> returns it; when \<open>q\<close> is invalid, no cell was materialized and
  \<^verbatim>\<open>GetCell(q)\<close> raises \<^verbatim>\<open>InvalidPositionException\<close>.
\<close>

theorem C9_scenario:
  assumes p: "(parse :: string \<Rightarrow> 'd FormulaAST option) ''ZZZ9999'' = Some ast" and g: "GetCells ast = [q]" and ne: "q \<noteq> AAA1"
  shows "bind (SetCell parse (Suc (Suc (Suc n))) AAA1 ''=ZZZ9999'')
           (\<lambda>_. ClearCell parse (Suc (Suc (Suc n))) AAA1) CreateSheet
         = Some (Returns (), if IsValid q then [(AAA1, None), (q, Some new_Cell)] else [(AAA1, None)])
     \<and> GetPrintableSize (if IsValid q then [(AAA1, None), (q, Some (new_Cell :: 'd Cell))] else [(AAA1, None)])
         = Size 0 0
     \<and> GetCell (if IsValid q then [(AAA1, None), (q, Some (new_Cell :: 'd Cell))] else [(AAA1, None)]) AAA1
         = Returns None
     \<and> GetCell (if IsValid q then [(AAA1, None), (q, Some (new_Cell :: 'd Cell))] else [(AAA1, None)]) q
         = (if IsValid q then Returns (Some q) else Throws InvalidPositionException)"
proof (cases "IsValid q")
  case True
  have ne': "AAA1 \<noteq> q" using ne by simp
  show ?thesis
    using True
    by (simp add: bind_def CreateSheet_def IsValid_AAA1 deref_def Cell_Set_def
      CreateImpl_def new_FormulaImpl_def ParseFormula_def p g ne ne'
      FORMULA_SIGN_def WouldIntroduceCircularDependency_def Formula_GetReferencedCells_def
      Impl_GetReferencedCells_def modify_cell_def UpdateDependencies_def UpdateDependencies_body_def
      return_def new_Cell_def GetCellPtr_def GetCell_def ClearCell_def IsReferenced_def
      Impl_IsCacheValid_def Impl_InvalidateCache_def GetPrintableSize_def Impl_GetText_def)
next
  case False
  show ?thesis
    using False
    by (simp add: bind_def CreateSheet_def IsValid_AAA1 deref_def Cell_Set_def
      CreateImpl_def new_FormulaImpl_def ParseFormula_def p g ne
      FORMULA_SIGN_def WouldIntroduceCircularDependency_def Formula_GetReferencedCells_def
      Impl_GetReferencedCells_def modify_cell_def UpdateDependencies_def UpdateDependencies_body_def
      return_def new_Cell_def GetCellPtr_def GetCell_def ClearCell_def IsReferenced_def
      Impl_IsCacheValid_def Impl_InvalidateCache_def GetPrintableSize_def Impl_GetText_def)
qed

theorem C9_witness:
  "bind (SetCell scenario_parse 3 AAA1 ''=ZZZ9999'') (\<lambda>_. ClearCell scenario_parse 3 AAA1) CreateSheet
     = Some (Returns (), [(AAA1, None)])
   \<and> GetPrintableSize [(AAA1, None :: int Cell option)] = Size 0 0
   \<and> GetCell [(AAA1, None :: int Cell option)] AAA1 = Returns None"
proof -
  have p: "scenario_parse ''ZZZ9999'' = Some (reference_ast ''ZZZ9999'' ZZZ9999)"
    by (simp add: scenario_parse_def)
  have g: "GetCells (reference_ast ''ZZZ9999'' ZZZ9999) = [ZZZ9999]"
    by (simp add: reference_ast_def)
  have ne: "ZZZ9999 \<noteq> AAA1" by (simp add: ZZZ9999_def AAA1_def)
  show ?thesis
    using C9_scenario[of scenario_parse "reference_ast ''ZZZ9999'' ZZZ9999" ZZZ9999 0]
      p g ne not_IsValid_ZZZ9999
    by (simp add: numeral_3_eq_3)
qed

text \<open>
  C5. \<^verbatim>\<open>Formula::EvaluateCell\<close> at a position \<open>p\<close>: an invalid \<open>p\<close> raises \<open>Ref\<close>; no
  live cell at \<open>p\<close> yields 0; a cell whose \<^verbatim>\<open>GetValue\<close> returns a double yields that
  double, one that returns a string yields \<^verbatim>\<open>ConvertStringToDouble\<close> of the string, and
  one that returns a \<^verbatim>\<open>FormulaError\<close> raises that error. \<^verbatim>\<open>ConvertStringToDouble\<close> yields 0
  on the empty string, the double read when the extraction succeeds and reaches the end
  of the string, and raises \<open>Value\<close> otherwise. The calls change caches only.
\<close>

theorem C5_EvaluateCell:
  "(\<not> IsValid p \<longrightarrow>
      EvaluateCell (Cell_GetValue read fuel) read p st = Some (Throws (Thrown Ref), st))
   \<and> (IsValid p \<and> deref (fst st) p = None \<longrightarrow>
      EvaluateCell (Cell_GetValue read fuel) read p st = Some (Returns 0, st))
   \<and> (IsValid p \<and> deref (fst st) p \<noteq> None \<and> Cell_GetValue read fuel p st = Some (Returns v, st1) \<longrightarrow>
        (\<exists>st'. EvaluateCell (Cell_GetValue read fuel) read p st
           = Some ((case v of
                      VDouble d \<Rightarrow> Returns d
                    | VString str \<Rightarrow> ConvertStringToDouble read str
                    | VError e \<Rightarrow> Throws (Thrown e)), st')
         \<and> forget (fst st') = forget (fst st)))
   \<and> ConvertStringToDouble read [] = Returns 0
   \<and> (str \<noteq> [] \<longrightarrow>
        ConvertStringToDouble read str
          = (case read str of Some (d, True) \<Rightarrow> Returns d | _ \<Rightarrow> Throws (Thrown Value)))"
  using EvaluateCell_live[of p st read fuel v st1]
  by (auto simp: EvaluateCell_def GetCell_def GetCellPtr_eq ConvertStringToDouble_def
      split: option.splits bool.splits)

theorem C5_witness:
  "(\<exists>st'. EvaluateCell (Cell_GetValue scenario_extract 2) scenario_extract A1 (sheet_A1_reads_10, 0)
        = Some (Returns 10, st'))
   \<and> (\<exists>st'. EvaluateCell (Cell_GetValue scenario_extract 2) scenario_extract B1 (sheet_A1_reads_10, 0)
        = Some (Returns 10, st'))
   \<and> EvaluateCell (Cell_GetValue scenario_extract 2) scenario_extract ZZZ9999 (sheet_A1_reads_10, 0)
        = Some (Throws (Thrown Ref), (sheet_A1_reads_10, 0))
   \<and> EvaluateCell (Cell_GetValue scenario_extract 2) scenario_extract ZZ9999 (sheet_A1_reads_10, 0)
        = Some (Returns 0, (sheet_A1_reads_10, 0))
   \<and> ConvertStringToDouble scenario_extract ''10x'' = Throws (Thrown Value)
   \<and> ConvertStringToDouble scenario_extract ''text'' = Throws (Thrown Value)"
proof -
  let ?st = "(sheet_A1_reads_10, 0 :: nat)"
  let ?cached = "[(A1, Some \<lparr>impl = FormulaImpl (reference_ast ''B1'' B1) (Some (FDouble 10)),
                             l_nodes = [], r_nodes = [B1]\<rparr>),
                  (B1, Some \<lparr>impl = TextImpl ''10'', l_nodes = [A1], r_nodes = []\<rparr>)]"
  have gB: "Cell_GetValue scenario_extract 2 B1 ?st = Some (Returns (VString ''10''), ?st)"
    by (simp add: numeral_2_eq_2 sheet_A1_reads_10_def deref_def A1_neq_B1 Impl_GetValue_def
        return_def ESCAPE_SIGN_def)
  have gA: "Cell_GetValue scenario_extract 2 A1 ?st = Some (Returns (VDouble 10), (?cached, 2))"
    by (simp add: numeral_2_eq_2 sheet_A1_reads_10_def deref_def A1_neq_B1 Impl_GetValue_def
        return_def ESCAPE_SIGN_def FormulaImpl_GetValue_def Formula_Evaluate_def bind_def
        reference_ast_def EvaluateCell_def IsValid_B1 GetCell_def GetCellPtr_def lift_def
        ConvertStringToDouble_def scenario_extract_def set_cache_def)
  have lA: "deref (fst ?st) A1 \<noteq> None" and lB: "deref (fst ?st) B1 \<noteq> None"
    and lZ: "deref (fst ?st) ZZ9999 = None"
    by (simp_all add: sheet_A1_reads_10_def deref_def A1_neq_B1 A1_def B1_def ZZ9999_def)
  have cx: "scenario_extract ''10x'' = Some (10, False)" and ct: "scenario_extract ''text'' = None"
    by (simp_all add: scenario_extract_def)
  have 1: "\<exists>st'. EvaluateCell (Cell_GetValue scenario_extract 2) scenario_extract A1 ?st
        = Some (Returns 10, st')"
    using C5_EvaluateCell[of A1 scenario_extract 2 ?st "VDouble 10" "(?cached, 2)" "''10x''"]
      gA lA IsValid_A1 by auto
  have 2: "\<exists>st'. EvaluateCell (Cell_GetValue scenario_extract 2) scenario_extract B1 ?st
        = Some (Returns 10, st')"
    using C5_EvaluateCell[of B1 scenario_extract 2 ?st "VString ''10''" ?st "''text''"]
      gB lB IsValid_B1 by (auto simp: ConvertStringToDouble_def scenario_extract_def)
  have 3: "EvaluateCell (Cell_GetValue scenario_extract 2) scenario_extract ZZZ9999 ?st
        = Some (Throws (Thrown Ref), ?st)"
    using C5_EvaluateCell[of ZZZ9999 scenario_extract 2 ?st] not_IsValid_ZZZ9999 by blast
  have 4: "EvaluateCell (Cell_GetValue scenario_extract 2) scenario_extract ZZ9999 ?st
        = Some (Returns 0, ?st)"
    using C5_EvaluateCell[of ZZ9999 scenario_extract 2 ?st] IsValid_ZZ9999 lZ by blast
  have 5: "ConvertStringToDouble scenario_extract ''10x'' = Throws (Thrown Value)"
    using C5_EvaluateCell[of A1 scenario_extract 2 ?st "VDouble 10" "(?cached, 2)" "''10x''"] cx
    by simp
  have 6: "ConvertStringToDouble scenario_extract ''text'' = Throws (Thrown Value)"
    using C5_EvaluateCell[of A1 scenario_extract 2 ?st "VDouble 10" "(?cached, 2)" "''text''"] ct
    by simp
  show ?thesis using 1 2 3 4 5 6 by blast
qed

end
